theory Spec2Isabelle
  imports Main "HOL-Library.Word"
begin

text \<open>
  A shallow embedding of the typed-value codec of the binary format: the scalar
  primitives and the per-type \<open>Bytes\<close> and \<open>FromBytes\<close> of values.go, and the
  array codec \<open>ValuesToBytes\<close> and \<open>ValuesFromBytes\<close> of arrays.go with its
  interleave primitive.
\<close>

unbundle bit_operations_syntax

section \<open>Machine types\<close>

text \<open>
  Go's fixed-width integers are words of the same width; \<open>int32\<close> and \<open>uint32\<close> share
  their bits, and a conversion between them is the identity on the word.  A \<open>float32\<close>
  is carried by its IEEE-754 bit pattern: the codec touches floats only through
  \<open>math.Float32bits\<close> and \<open>math.Float32frombits\<close>, which are then the identity, and
  equality of two floats below is equality of their bits.  Lengths and loop counters
  are Go \<open>int\<close>s; they are \<open>nat\<close> where the code keeps them non-negative and \<open>int\<close>
  where a caller may pass a negative number.
\<close>

type_synonym byte = "8 word"
type_synonym uint16 = "16 word"
type_synonym int16 = "16 word"
type_synonym uint32 = "32 word"
type_synonym int32 = "32 word"
type_synonym uint64 = "64 word"
type_synonym int64 = "64 word"
type_synonym float32 = "32 word"
type_synonym float64 = "64 word"

text \<open>\<open>type Type byte\<close> (values.go) with its named constants.\<close>

type_synonym Type = byte

abbreviation (input) TypeInvalid :: Type where "TypeInvalid \<equiv> 0x0"
abbreviation (input) TypeString :: Type where "TypeString \<equiv> 0x1"
abbreviation (input) TypeBool :: Type where "TypeBool \<equiv> 0x2"
abbreviation (input) TypeInt :: Type where "TypeInt \<equiv> 0x3"
abbreviation (input) TypeFloat :: Type where "TypeFloat \<equiv> 0x4"
abbreviation (input) TypeDouble :: Type where "TypeDouble \<equiv> 0x5"
abbreviation (input) TypeUDim :: Type where "TypeUDim \<equiv> 0x6"
abbreviation (input) TypeUDim2 :: Type where "TypeUDim2 \<equiv> 0x7"
abbreviation (input) TypeRay :: Type where "TypeRay \<equiv> 0x8"
abbreviation (input) TypeFaces :: Type where "TypeFaces \<equiv> 0x9"
abbreviation (input) TypeAxes :: Type where "TypeAxes \<equiv> 0xA"
abbreviation (input) TypeBrickColor :: Type where "TypeBrickColor \<equiv> 0xB"
abbreviation (input) TypeColor3 :: Type where "TypeColor3 \<equiv> 0xC"
abbreviation (input) TypeVector2 :: Type where "TypeVector2 \<equiv> 0xD"
abbreviation (input) TypeVector3 :: Type where "TypeVector3 \<equiv> 0xE"
abbreviation (input) TypeVector2int16 :: Type where "TypeVector2int16 \<equiv> 0xF"
abbreviation (input) TypeCFrame :: Type where "TypeCFrame \<equiv> 0x10"
abbreviation (input) TypeToken :: Type where "TypeToken \<equiv> 0x12"
abbreviation (input) TypeReference :: Type where "TypeReference \<equiv> 0x13"
abbreviation (input) TypeVector3int16 :: Type where "TypeVector3int16 \<equiv> 0x14"
abbreviation (input) TypeNumberSequence :: Type where "TypeNumberSequence \<equiv> 0x15"
abbreviation (input) TypeColorSequence :: Type where "TypeColorSequence \<equiv> 0x16"
abbreviation (input) TypeNumberRange :: Type where "TypeNumberRange \<equiv> 0x17"
abbreviation (input) TypeRect2D :: Type where "TypeRect2D \<equiv> 0x18"
abbreviation (input) TypePhysicalProperties :: Type where "TypePhysicalProperties \<equiv> 0x19"
abbreviation (input) TypeColor3uint8 :: Type where "TypeColor3uint8 \<equiv> 0x1A"
abbreviation (input) TypeInt64 :: Type where "TypeInt64 \<equiv> 0x1B"
abbreviation (input) TypeSharedString :: Type where "TypeSharedString \<equiv> 0x1C"

definition Valid :: "Type \<Rightarrow> bool" where
  "Valid t \<longleftrightarrow> TypeString \<le> t \<and> t \<le> TypeSharedString \<and> t \<noteq> 0x11"

section \<open>Outcomes of a call\<close>

text \<open>
  The errors the two files build with \<open>errors.New\<close> and \<open>fmt.Errorf\<close>, one
  constructor for each message, the formatted numbers as arguments.
\<close>

datatype error =
    ErrLengthNotPositive
      \<comment> \<open>\<open>length must be greater than 0\<close>\<close>
  | ErrLengthNotDivisor
      \<comment> \<open>\<open>length must be a divisor of array length\<close>\<close>
  | ErrSizeNotPositive
      \<comment> \<open>\<open>size must be greater than 0\<close>\<close>
  | ErrSizeNotDivisor
      \<comment> \<open>\<open>size must be a divisor of array length\<close>\<close>
  | ErrElementType nat Type Type
      \<comment> \<open>\<open>element %d is of type %s where %s is expected\<close>\<close>
  | ErrTypeIdentifier Type
      \<comment> \<open>\<open>type identifier 0x%X is not a valid Type.\<close>\<close>
  | ErrNotDivisible nat nat
      \<comment> \<open>\<open>length of array (%d) is not divisible by value byte size (%d)\<close>\<close>
  | ErrExpectedMoreBytes nat
      \<comment> \<open>\<open>expected %d more bytes in array\<close>\<close>
  | ErrInvalidType Type
      \<comment> \<open>\<open>invalid type (%02X)\<close>\<close>
  | ErrNotImplemented
      \<comment> \<open>\<open>not implemented\<close>\<close>
  | ErrPositionsMismatch
      \<comment> \<open>\<open>number of positions does not match number of matrices\<close>\<close>
  | ErrArrayNotDivisibleBy nat
      \<comment> \<open>\<open>array must be divisible by %d\<close>\<close>
  | ErrArrayLength nat
      \<comment> \<open>\<open>array length must be %d\<close>\<close>
  | ErrArrayLengthAtLeast nat
      \<comment> \<open>\<open>array length must be greater than or equal to 4\<close>, \<open>... at least 4\<close>\<close>
  | ErrStringLength nat nat
      \<comment> \<open>\<open>string length (%d) does not match integer length (%d)\<close>\<close>
  | ErrExpectedArrayLength nat nat nat
      \<comment> \<open>\<open>expected array length of %d (4 + %d * %d)\<close>\<close>

text \<open>The run-time panics the code can raise.\<close>

datatype panic =
    IndexOutOfRange
  | SliceBoundsOutOfRange
  | TypeAssertion
  | NilFunction
  | DivideByZero
  | FieldLengthMismatch
      \<comment> \<open>\<open>panic("length of field's bytes does not match given field length")\<close>\<close>

text \<open>
  A call returns a value, returns an error, panics, or does not return at all.
\<close>

datatype 'a result = Ok 'a | Err error | Panic panic | Diverges

fun is_Ok :: "'a result \<Rightarrow> bool" where
  "is_Ok (Ok _) = True"
| "is_Ok _ = False"

fun is_Panic :: "'a result \<Rightarrow> bool" where
  "is_Panic (Panic _) = True"
| "is_Panic _ = False"

text \<open>Sequencing: the first failure ends the call.\<close>

fun and_then :: "'a result \<Rightarrow> ('a \<Rightarrow> 'b result) \<Rightarrow> 'b result" where
  "and_then (Ok x) f = f x"
| "and_then (Err e) f = Err e"
| "and_then (Panic p) f = Panic p"
| "and_then Diverges f = Diverges"

text \<open>
  The receiver after a call whose returned error the caller drops
  (\<open>v.X.FromBytes(b[0:4])\<close> as a statement): a \<open>FromBytes\<close> that returns an error
  has not written to its receiver.  It is used only for the scalar and vector
  \<open>FromBytes\<close>, which neither panic nor loop.
\<close>

fun receiver_after :: "'a \<Rightarrow> 'a result \<Rightarrow> 'a" where
  "receiver_after old (Ok new) = new"
| "receiver_after old _ = old"

fun map_result :: "('a \<Rightarrow> 'b) \<Rightarrow> 'a result \<Rightarrow> 'b result" where
  "map_result f (Ok x) = Ok (f x)"
| "map_result f (Err e) = Err e"
| "map_result f (Panic p) = Panic p"
| "map_result f Diverges = Diverges"

section \<open>Byte order (\<open>encoding/binary\<close>)\<close>

text \<open>
  A byte list is the contents of a slice whose capacity is its length.
  \<open>slice b i j\<close> is \<open>b[i:j]\<close>: Go panics unless \<open>i \<le> j \<le> cap(b)\<close>, and every use
  below is behind a check of the length or has its panic written out.  The readers
  \<open>Uint16\<close>, \<open>Uint32\<close> and \<open>Uint64\<close> read the first 2, 4 and 8 bytes of their
  argument, under the same proviso.
\<close>

definition slice :: "'a list \<Rightarrow> nat \<Rightarrow> nat \<Rightarrow> 'a list" where
  "slice b i j = take (j - i) (drop i b)"

definition BigEndian_PutUint32 :: "uint32 \<Rightarrow> byte list" where
  "BigEndian_PutUint32 v =
     [ucast (drop_bit 24 v), ucast (drop_bit 16 v), ucast (drop_bit 8 v), ucast v]"

definition BigEndian_Uint32 :: "byte list \<Rightarrow> uint32" where
  "BigEndian_Uint32 b =
     push_bit 24 (ucast (b ! 0)) OR push_bit 16 (ucast (b ! 1)) OR
     push_bit 8 (ucast (b ! 2)) OR ucast (b ! 3)"

definition BigEndian_PutUint64 :: "uint64 \<Rightarrow> byte list" where
  "BigEndian_PutUint64 v =
     [ucast (drop_bit 56 v), ucast (drop_bit 48 v), ucast (drop_bit 40 v), ucast (drop_bit 32 v),
      ucast (drop_bit 24 v), ucast (drop_bit 16 v), ucast (drop_bit 8 v), ucast v]"

definition BigEndian_Uint64 :: "byte list \<Rightarrow> uint64" where
  "BigEndian_Uint64 b =
     push_bit 56 (ucast (b ! 0)) OR push_bit 48 (ucast (b ! 1)) OR
     push_bit 40 (ucast (b ! 2)) OR push_bit 32 (ucast (b ! 3)) OR
     push_bit 24 (ucast (b ! 4)) OR push_bit 16 (ucast (b ! 5)) OR
     push_bit 8 (ucast (b ! 6)) OR ucast (b ! 7)"

definition LittleEndian_PutUint16 :: "uint16 \<Rightarrow> byte list" where
  "LittleEndian_PutUint16 v = [ucast v, ucast (drop_bit 8 v)]"

definition LittleEndian_Uint16 :: "byte list \<Rightarrow> uint16" where
  "LittleEndian_Uint16 b = ucast (b ! 0) OR push_bit 8 (ucast (b ! 1))"

definition LittleEndian_PutUint32 :: "uint32 \<Rightarrow> byte list" where
  "LittleEndian_PutUint32 v =
     [ucast v, ucast (drop_bit 8 v), ucast (drop_bit 16 v), ucast (drop_bit 24 v)]"

definition LittleEndian_Uint32 :: "byte list \<Rightarrow> uint32" where
  "LittleEndian_Uint32 b =
     ucast (b ! 0) OR push_bit 8 (ucast (b ! 1)) OR
     push_bit 16 (ucast (b ! 2)) OR push_bit 24 (ucast (b ! 3))"

definition LittleEndian_PutUint64 :: "uint64 \<Rightarrow> byte list" where
  "LittleEndian_PutUint64 v =
     [ucast v, ucast (drop_bit 8 v), ucast (drop_bit 16 v), ucast (drop_bit 24 v),
      ucast (drop_bit 32 v), ucast (drop_bit 40 v), ucast (drop_bit 48 v), ucast (drop_bit 56 v)]"

definition LittleEndian_Uint64 :: "byte list \<Rightarrow> uint64" where
  "LittleEndian_Uint64 b =
     ucast (b ! 0) OR push_bit 8 (ucast (b ! 1)) OR
     push_bit 16 (ucast (b ! 2)) OR push_bit 24 (ucast (b ! 3)) OR
     push_bit 32 (ucast (b ! 4)) OR push_bit 40 (ucast (b ! 5)) OR
     push_bit 48 (ucast (b ! 6)) OR push_bit 56 (ucast (b ! 7))"

section \<open>Scalar primitives (values.go)\<close>

text \<open>
  \<open>n >> 31\<close> on an \<open>int32\<close> is the arithmetic shift \<open>signed_drop_bit\<close>, on a
  \<open>uint32\<close> the logical shift \<open>drop_bit\<close>.
\<close>

definition encodeZigzag32 :: "int32 \<Rightarrow> uint32" where
  "encodeZigzag32 n = push_bit 1 n XOR signed_drop_bit 31 n"

definition decodeZigzag32 :: "uint32 \<Rightarrow> int32" where
  "decodeZigzag32 n = drop_bit 1 n XOR signed_drop_bit 31 (push_bit 31 (n AND 1))"

definition encodeZigzag64 :: "int64 \<Rightarrow> uint64" where
  "encodeZigzag64 n = push_bit 1 n XOR signed_drop_bit 63 n"

definition decodeZigzag64 :: "uint64 \<Rightarrow> int64" where
  "decodeZigzag64 n = drop_bit 1 n XOR signed_drop_bit 63 (push_bit 63 (n AND 1))"

definition encodeRobloxFloat :: "float32 \<Rightarrow> uint32" where
  "encodeRobloxFloat f = (let n = f in push_bit 1 n OR drop_bit 31 n)"

definition decodeRobloxFloat :: "uint32 \<Rightarrow> float32" where
  "decodeRobloxFloat n = (let f = drop_bit 1 n OR push_bit 31 n in f)"

text \<open>The number of set bits of a 32-bit pattern.\<close>

definition popcount :: "uint32 \<Rightarrow> nat" where
  "popcount w = length (filter (bit w) [0..<32])"

section \<open>The interleave primitive (arrays.go)\<close>

text \<open>
  \<open>interleave\<close> and \<open>deinterleave\<close> rewrite their argument in place and return
  only an error.  The model returns the new contents of the buffer; both return an
  error before the first write, so on \<open>Err\<close> the buffer is what it was.

  The tuple assignment \<open>bytes[i], bytes[j] = bytes[j], bytes[i]\<close> reads both
  operands first and then writes \<open>bytes[i]\<close>, then \<open>bytes[j]\<close>.
\<close>

definition swap_bytes :: "nat \<Rightarrow> nat \<Rightarrow> byte list \<Rightarrow> byte list" where
  "swap_bytes i j bs = bs[i := bs ! j, j := bs ! i]"

text \<open>The branch \<open>rows == cols\<close>: the two nested loops, swapping below the diagonal.\<close>

definition interleave_square :: "byte list \<Rightarrow> nat \<Rightarrow> nat \<Rightarrow> byte list" where
  "interleave_square bs rows cols =
     fold (\<lambda>r b. fold (\<lambda>c b'. swap_bytes (r * cols + c) (c * cols + r) b') [0..<r] b)
       [0..<rows] bs"

text \<open>
  The other branch: fill the scratch buffer \<open>tmp\<close> (zeroed by \<open>make\<close>), then copy
  it back over \<open>bytes\<close>.
\<close>

definition interleave_rect :: "byte list \<Rightarrow> nat \<Rightarrow> nat \<Rightarrow> byte list" where
  "interleave_rect bs rows cols =
     (let tmp = fold (\<lambda>r t. fold (\<lambda>c t'. t'[c * rows + r := bs ! (r * cols + c)]) [0..<cols] t)
                  [0..<rows] (replicate (length bs) 0)
      in fold (\<lambda>i b. b[i := tmp ! i]) [0..<length tmp] bs)"

definition interleave :: "byte list \<Rightarrow> int \<Rightarrow> byte list result" where
  "interleave bs len =
     (if len \<le> 0 then Err ErrLengthNotPositive
      else if int (length bs) mod len \<noteq> 0 then Err ErrLengthNotDivisor
      else
        let cols = nat len; rows = length bs div nat len
        in if rows = cols then Ok (interleave_square bs rows cols)
           else Ok (interleave_rect bs rows cols))"

definition deinterleave :: "byte list \<Rightarrow> int \<Rightarrow> byte list result" where
  "deinterleave bs sz =
     (if sz \<le> 0 then Err ErrSizeNotPositive
      else if int (length bs) mod sz \<noteq> 0 then Err ErrSizeNotDivisor
      else interleave bs (int (length bs) div sz))"

text \<open>
  The transposition of a \<open>rows \<times> cols\<close> byte matrix, as a list:
  position \<open>c * rows + r\<close> holds the byte at \<open>r * cols + c\<close> of the input.
\<close>

definition transposed :: "nat \<Rightarrow> nat \<Rightarrow> byte list \<Rightarrow> byte list" where
  "transposed rows cols bs = map (\<lambda>k. bs ! ((k mod rows) * cols + k div rows)) [0..<rows * cols]"


section \<open>Values (values.go)\<close>

subsection \<open>Scalars\<close>

type_synonym ValueString = "byte list"
type_synonym ValueBool = bool
type_synonym ValueInt = int32
type_synonym ValueFloat = float32
type_synonym ValueDouble = float64
type_synonym ValueBrickColor = uint32
type_synonym ValueToken = uint32
type_synonym ValueReference = int32
type_synonym ValueInt64 = int64
type_synonym ValueSharedString = uint32

definition ValueString_Bytes :: "ValueString \<Rightarrow> byte list" where
  "ValueString_Bytes v = LittleEndian_PutUint32 (of_nat (length v)) @ v"

definition ValueString_FromBytes :: "byte list \<Rightarrow> ValueString result" where
  "ValueString_FromBytes b =
     (if length b < 4 then Err (ErrArrayLengthAtLeast 4)
      else
        let len = LittleEndian_Uint32 (slice b 0 4); str = drop 4 b
        in if (of_nat (length str) :: uint32) \<noteq> len
           then Err (ErrStringLength (length str) (unat len))
           else Ok str)"

definition ValueBool_Bytes :: "ValueBool \<Rightarrow> byte list" where
  "ValueBool_Bytes v = (if v then [1] else [0])"

definition ValueBool_FromBytes :: "byte list \<Rightarrow> ValueBool result" where
  "ValueBool_FromBytes b =
     (if length b \<noteq> 1 then Err (ErrArrayLength 1) else Ok (b ! 0 \<noteq> 0))"

definition ValueInt_Bytes :: "ValueInt \<Rightarrow> byte list" where
  "ValueInt_Bytes v = BigEndian_PutUint32 (encodeZigzag32 v)"

definition ValueInt_FromBytes :: "byte list \<Rightarrow> ValueInt result" where
  "ValueInt_FromBytes b =
     (if length b \<noteq> 4 then Err (ErrArrayLength 4)
      else Ok (decodeZigzag32 (BigEndian_Uint32 b)))"

definition ValueFloat_Bytes :: "ValueFloat \<Rightarrow> byte list" where
  "ValueFloat_Bytes v = BigEndian_PutUint32 (encodeRobloxFloat v)"

definition ValueFloat_FromBytes :: "byte list \<Rightarrow> ValueFloat result" where
  "ValueFloat_FromBytes b =
     (if length b \<noteq> 4 then Err (ErrArrayLength 4)
      else Ok (decodeRobloxFloat (BigEndian_Uint32 b)))"

definition ValueDouble_Bytes :: "ValueDouble \<Rightarrow> byte list" where
  "ValueDouble_Bytes v = LittleEndian_PutUint64 v"

definition ValueDouble_FromBytes :: "byte list \<Rightarrow> ValueDouble result" where
  "ValueDouble_FromBytes b =
     (if length b \<noteq> 8 then Err (ErrArrayLength 8) else Ok (LittleEndian_Uint64 b))"

definition ValueBrickColor_Bytes :: "ValueBrickColor \<Rightarrow> byte list" where
  "ValueBrickColor_Bytes v = BigEndian_PutUint32 v"

definition ValueBrickColor_FromBytes :: "byte list \<Rightarrow> ValueBrickColor result" where
  "ValueBrickColor_FromBytes b =
     (if length b \<noteq> 4 then Err (ErrArrayLength 4) else Ok (BigEndian_Uint32 b))"

definition ValueToken_Bytes :: "ValueToken \<Rightarrow> byte list" where
  "ValueToken_Bytes v = BigEndian_PutUint32 v"

definition ValueToken_FromBytes :: "byte list \<Rightarrow> ValueToken result" where
  "ValueToken_FromBytes b =
     (if length b \<noteq> 4 then Err (ErrArrayLength 4) else Ok (BigEndian_Uint32 b))"

definition ValueReference_Bytes :: "ValueReference \<Rightarrow> byte list" where
  "ValueReference_Bytes v = BigEndian_PutUint32 (encodeZigzag32 v)"

definition ValueReference_FromBytes :: "byte list \<Rightarrow> ValueReference result" where
  "ValueReference_FromBytes b =
     (if length b \<noteq> 4 then Err (ErrArrayLength 4)
      else Ok (decodeZigzag32 (BigEndian_Uint32 b)))"

definition ValueInt64_Bytes :: "ValueInt64 \<Rightarrow> byte list" where
  "ValueInt64_Bytes v = BigEndian_PutUint64 (encodeZigzag64 v)"

definition ValueInt64_FromBytes :: "byte list \<Rightarrow> ValueInt64 result" where
  "ValueInt64_FromBytes b =
     (if length b \<noteq> 8 then Err (ErrArrayLength 8)
      else Ok (decodeZigzag64 (BigEndian_Uint64 b)))"

definition ValueSharedString_Bytes :: "ValueSharedString \<Rightarrow> byte list" where
  "ValueSharedString_Bytes v = BigEndian_PutUint32 v"

definition ValueSharedString_FromBytes :: "byte list \<Rightarrow> ValueSharedString result" where
  "ValueSharedString_FromBytes b =
     (if length b \<noteq> 4 then Err (ErrArrayLength 4) else Ok (BigEndian_Uint32 b))"

subsection \<open>Structs of floats and integers\<close>

datatype ValueUDim = ValueUDim (UDim_Scale: ValueFloat) (UDim_Offset: ValueInt)

fun ValueUDim_Bytes :: "ValueUDim \<Rightarrow> byte list" where
  "ValueUDim_Bytes (ValueUDim scale offset) = ValueFloat_Bytes scale @ ValueInt_Bytes offset"

fun ValueUDim_FromBytes :: "ValueUDim \<Rightarrow> byte list \<Rightarrow> ValueUDim result" where
  "ValueUDim_FromBytes (ValueUDim scale offset) b =
     (if length b \<noteq> 8 then Err (ErrArrayLength 8)
      else Ok (ValueUDim
        (receiver_after scale (ValueFloat_FromBytes (slice b 0 4)))
        (receiver_after offset (ValueInt_FromBytes (slice b 4 8)))))"

definition ValueUDim_fieldLen :: "nat list" where
  "ValueUDim_fieldLen = [4, 4]"

fun ValueUDim_fieldSet :: "ValueUDim \<Rightarrow> nat \<Rightarrow> byte list \<Rightarrow> ValueUDim result" where
  "ValueUDim_fieldSet (ValueUDim scale offset) i b =
     (if i = 0 then map_result (\<lambda>x. ValueUDim x offset) (ValueFloat_FromBytes b)
      else if i = 1 then map_result (\<lambda>x. ValueUDim scale x) (ValueInt_FromBytes b)
      else Ok (ValueUDim scale offset))"

fun ValueUDim_fieldGet :: "ValueUDim \<Rightarrow> nat \<Rightarrow> byte list" where
  "ValueUDim_fieldGet (ValueUDim scale offset) i =
     (if i = 0 then ValueFloat_Bytes scale
      else if i = 1 then ValueInt_Bytes offset
      else [])"

datatype ValueUDim2 = ValueUDim2 (UDim2_ScaleX: ValueFloat) (UDim2_ScaleY: ValueFloat)
  (UDim2_OffsetX: ValueInt) (UDim2_OffsetY: ValueInt)

fun ValueUDim2_Bytes :: "ValueUDim2 \<Rightarrow> byte list" where
  "ValueUDim2_Bytes (ValueUDim2 sx sy ox oy) =
     ValueFloat_Bytes sx @ ValueFloat_Bytes sy @ ValueInt_Bytes ox @ ValueInt_Bytes oy"

fun ValueUDim2_FromBytes :: "ValueUDim2 \<Rightarrow> byte list \<Rightarrow> ValueUDim2 result" where
  "ValueUDim2_FromBytes (ValueUDim2 sx sy ox oy) b =
     (if length b \<noteq> 16 then Err (ErrArrayLength 16)
      else Ok (ValueUDim2
        (receiver_after sx (ValueFloat_FromBytes (slice b 0 4)))
        (receiver_after sy (ValueFloat_FromBytes (slice b 4 8)))
        (receiver_after ox (ValueInt_FromBytes (slice b 8 12)))
        (receiver_after oy (ValueInt_FromBytes (slice b 12 16)))))"

definition ValueUDim2_fieldLen :: "nat list" where
  "ValueUDim2_fieldLen = [4, 4, 4, 4]"

fun ValueUDim2_fieldSet :: "ValueUDim2 \<Rightarrow> nat \<Rightarrow> byte list \<Rightarrow> ValueUDim2 result" where
  "ValueUDim2_fieldSet (ValueUDim2 sx sy ox oy) i b =
     (if i = 0 then map_result (\<lambda>x. ValueUDim2 x sy ox oy) (ValueFloat_FromBytes b)
      else if i = 1 then map_result (\<lambda>x. ValueUDim2 sx x ox oy) (ValueFloat_FromBytes b)
      else if i = 2 then map_result (\<lambda>x. ValueUDim2 sx sy x oy) (ValueInt_FromBytes b)
      else if i = 3 then map_result (\<lambda>x. ValueUDim2 sx sy ox x) (ValueInt_FromBytes b)
      else Ok (ValueUDim2 sx sy ox oy))"

fun ValueUDim2_fieldGet :: "ValueUDim2 \<Rightarrow> nat \<Rightarrow> byte list" where
  "ValueUDim2_fieldGet (ValueUDim2 sx sy ox oy) i =
     (if i = 0 then ValueFloat_Bytes sx
      else if i = 1 then ValueFloat_Bytes sy
      else if i = 2 then ValueInt_Bytes ox
      else if i = 3 then ValueInt_Bytes oy
      else [])"

datatype ValueRay = ValueRay (Ray_OriginX: float32) (Ray_OriginY: float32) (Ray_OriginZ: float32)
  (Ray_DirectionX: float32) (Ray_DirectionY: float32) (Ray_DirectionZ: float32)

fun ValueRay_Bytes :: "ValueRay \<Rightarrow> byte list" where
  "ValueRay_Bytes (ValueRay ox oy oz dx dy dz) =
     LittleEndian_PutUint32 ox @ LittleEndian_PutUint32 oy @ LittleEndian_PutUint32 oz @
     LittleEndian_PutUint32 dx @ LittleEndian_PutUint32 dy @ LittleEndian_PutUint32 dz"

definition ValueRay_FromBytes :: "byte list \<Rightarrow> ValueRay result" where
  "ValueRay_FromBytes b =
     (if length b \<noteq> 24 then Err (ErrArrayLength 24)
      else Ok (ValueRay
        (LittleEndian_Uint32 (slice b 0 4)) (LittleEndian_Uint32 (slice b 4 8))
        (LittleEndian_Uint32 (slice b 8 12)) (LittleEndian_Uint32 (slice b 12 16))
        (LittleEndian_Uint32 (slice b 16 20)) (LittleEndian_Uint32 (slice b 20 24))))"

subsection \<open>Flag sets\<close>

text \<open>
  The loop \<open>for i, flag := range flags { if flag { b = b | (1 << uint(i)) } }\<close>.
\<close>

definition flags_byte :: "bool list \<Rightarrow> byte" where
  "flags_byte flags =
     fold (\<lambda>(i, flag) b. if flag then b OR push_bit i 1 else b)
       (zip [0..<length flags] flags) 0"

datatype ValueFaces = ValueFaces (Faces_Right: bool) (Faces_Top: bool) (Faces_Back: bool)
  (Faces_Left: bool) (Faces_Bottom: bool) (Faces_Front: bool)

fun ValueFaces_Bytes :: "ValueFaces \<Rightarrow> byte list" where
  "ValueFaces_Bytes (ValueFaces r t bk l bt f) = [flags_byte [r, t, bk, l, bt, f]]"

definition ValueFaces_FromBytes :: "byte list \<Rightarrow> ValueFaces result" where
  "ValueFaces_FromBytes b =
     (if length b \<noteq> 1 then Err (ErrArrayLength 1)
      else Ok (ValueFaces
        (b ! 0 AND push_bit 0 1 \<noteq> 0) (b ! 0 AND push_bit 1 1 \<noteq> 0)
        (b ! 0 AND push_bit 2 1 \<noteq> 0) (b ! 0 AND push_bit 3 1 \<noteq> 0)
        (b ! 0 AND push_bit 4 1 \<noteq> 0) (b ! 0 AND push_bit 5 1 \<noteq> 0)))"

datatype ValueAxes = ValueAxes (Axes_X: bool) (Axes_Y: bool) (Axes_Z: bool)

fun ValueAxes_Bytes :: "ValueAxes \<Rightarrow> byte list" where
  "ValueAxes_Bytes (ValueAxes x y z) = [flags_byte [x, y, z]]"

definition ValueAxes_FromBytes :: "byte list \<Rightarrow> ValueAxes result" where
  "ValueAxes_FromBytes b =
     (if length b \<noteq> 1 then Err (ErrArrayLength 1)
      else Ok (ValueAxes
        (b ! 0 AND push_bit 0 1 \<noteq> 0) (b ! 0 AND push_bit 1 1 \<noteq> 0)
        (b ! 0 AND push_bit 2 1 \<noteq> 0)))"

subsection \<open>Colours and vectors\<close>

datatype ValueColor3 = ValueColor3 (Color3_R: ValueFloat) (Color3_G: ValueFloat) (Color3_B: ValueFloat)

fun ValueColor3_Bytes :: "ValueColor3 \<Rightarrow> byte list" where
  "ValueColor3_Bytes (ValueColor3 r g b) =
     ValueFloat_Bytes r @ ValueFloat_Bytes g @ ValueFloat_Bytes b"

fun ValueColor3_FromBytes :: "ValueColor3 \<Rightarrow> byte list \<Rightarrow> ValueColor3 result" where
  "ValueColor3_FromBytes (ValueColor3 r g bl) b =
     (if length b \<noteq> 12 then Err (ErrArrayLength 12)
      else Ok (ValueColor3
        (receiver_after r (ValueFloat_FromBytes (slice b 0 4)))
        (receiver_after g (ValueFloat_FromBytes (slice b 4 8)))
        (receiver_after bl (ValueFloat_FromBytes (slice b 8 12)))))"

definition ValueColor3_fieldLen :: "nat list" where
  "ValueColor3_fieldLen = [4, 4, 4]"

fun ValueColor3_fieldSet :: "ValueColor3 \<Rightarrow> nat \<Rightarrow> byte list \<Rightarrow> ValueColor3 result" where
  "ValueColor3_fieldSet (ValueColor3 r g bl) i b =
     (if i = 0 then map_result (\<lambda>x. ValueColor3 x g bl) (ValueFloat_FromBytes b)
      else if i = 1 then map_result (\<lambda>x. ValueColor3 r x bl) (ValueFloat_FromBytes b)
      else if i = 2 then map_result (\<lambda>x. ValueColor3 r g x) (ValueFloat_FromBytes b)
      else Ok (ValueColor3 r g bl))"

fun ValueColor3_fieldGet :: "ValueColor3 \<Rightarrow> nat \<Rightarrow> byte list" where
  "ValueColor3_fieldGet (ValueColor3 r g bl) i =
     (if i = 0 then ValueFloat_Bytes r
      else if i = 1 then ValueFloat_Bytes g
      else if i = 2 then ValueFloat_Bytes bl
      else [])"

datatype ValueVector2 = ValueVector2 (Vector2_X: ValueFloat) (Vector2_Y: ValueFloat)

fun ValueVector2_Bytes :: "ValueVector2 \<Rightarrow> byte list" where
  "ValueVector2_Bytes (ValueVector2 x y) = ValueFloat_Bytes x @ ValueFloat_Bytes y"

fun ValueVector2_FromBytes :: "ValueVector2 \<Rightarrow> byte list \<Rightarrow> ValueVector2 result" where
  "ValueVector2_FromBytes (ValueVector2 x y) b =
     (if length b \<noteq> 8 then Err (ErrArrayLength 8)
      else Ok (ValueVector2
        (receiver_after x (ValueFloat_FromBytes (slice b 0 4)))
        (receiver_after y (ValueFloat_FromBytes (slice b 4 8)))))"

definition ValueVector2_fieldLen :: "nat list" where
  "ValueVector2_fieldLen = [4, 4]"

fun ValueVector2_fieldSet :: "ValueVector2 \<Rightarrow> nat \<Rightarrow> byte list \<Rightarrow> ValueVector2 result" where
  "ValueVector2_fieldSet (ValueVector2 x y) i b =
     (if i = 0 then map_result (\<lambda>x'. ValueVector2 x' y) (ValueFloat_FromBytes b)
      else if i = 1 then map_result (\<lambda>y'. ValueVector2 x y') (ValueFloat_FromBytes b)
      else Ok (ValueVector2 x y))"

fun ValueVector2_fieldGet :: "ValueVector2 \<Rightarrow> nat \<Rightarrow> byte list" where
  "ValueVector2_fieldGet (ValueVector2 x y) i =
     (if i = 0 then ValueFloat_Bytes x
      else if i = 1 then ValueFloat_Bytes y
      else [])"

datatype ValueVector3 = ValueVector3 (Vector3_X: ValueFloat) (Vector3_Y: ValueFloat) (Vector3_Z: ValueFloat)

fun ValueVector3_Bytes :: "ValueVector3 \<Rightarrow> byte list" where
  "ValueVector3_Bytes (ValueVector3 x y z) =
     ValueFloat_Bytes x @ ValueFloat_Bytes y @ ValueFloat_Bytes z"

fun ValueVector3_FromBytes :: "ValueVector3 \<Rightarrow> byte list \<Rightarrow> ValueVector3 result" where
  "ValueVector3_FromBytes (ValueVector3 x y z) b =
     (if length b \<noteq> 12 then Err (ErrArrayLength 12)
      else Ok (ValueVector3
        (receiver_after x (ValueFloat_FromBytes (slice b 0 4)))
        (receiver_after y (ValueFloat_FromBytes (slice b 4 8)))
        (receiver_after z (ValueFloat_FromBytes (slice b 8 12)))))"

definition ValueVector3_fieldLen :: "nat list" where
  "ValueVector3_fieldLen = [4, 4, 4]"

fun ValueVector3_fieldSet :: "ValueVector3 \<Rightarrow> nat \<Rightarrow> byte list \<Rightarrow> ValueVector3 result" where
  "ValueVector3_fieldSet (ValueVector3 x y z) i b =
     (if i = 0 then map_result (\<lambda>x'. ValueVector3 x' y z) (ValueFloat_FromBytes b)
      else if i = 1 then map_result (\<lambda>y'. ValueVector3 x y' z) (ValueFloat_FromBytes b)
      else if i = 2 then map_result (\<lambda>z'. ValueVector3 x y z') (ValueFloat_FromBytes b)
      else Ok (ValueVector3 x y z))"

fun ValueVector3_fieldGet :: "ValueVector3 \<Rightarrow> nat \<Rightarrow> byte list" where
  "ValueVector3_fieldGet (ValueVector3 x y z) i =
     (if i = 0 then ValueFloat_Bytes x
      else if i = 1 then ValueFloat_Bytes y
      else if i = 2 then ValueFloat_Bytes z
      else [])"

datatype ValueVector2int16 = ValueVector2int16 (Vector2int16_X: int16) (Vector2int16_Y: int16)

fun ValueVector2int16_Bytes :: "ValueVector2int16 \<Rightarrow> byte list" where
  "ValueVector2int16_Bytes (ValueVector2int16 x y) =
     LittleEndian_PutUint16 x @ LittleEndian_PutUint16 y"

definition ValueVector2int16_FromBytes :: "byte list \<Rightarrow> ValueVector2int16 result" where
  "ValueVector2int16_FromBytes b =
     (if length b \<noteq> 4 then Err (ErrArrayLength 4)
      else Ok (ValueVector2int16
        (LittleEndian_Uint16 (slice b 0 2)) (LittleEndian_Uint16 (slice b 2 4))))"

datatype ValueVector3int16 = ValueVector3int16 (Vector3int16_X: int16) (Vector3int16_Y: int16)
  (Vector3int16_Z: int16)

fun ValueVector3int16_Bytes :: "ValueVector3int16 \<Rightarrow> byte list" where
  "ValueVector3int16_Bytes (ValueVector3int16 x y z) =
     LittleEndian_PutUint16 x @ LittleEndian_PutUint16 y @ LittleEndian_PutUint16 z"

definition ValueVector3int16_FromBytes :: "byte list \<Rightarrow> ValueVector3int16 result" where
  "ValueVector3int16_FromBytes b =
     (if length b \<noteq> 6 then Err (ErrArrayLength 6)
      else Ok (ValueVector3int16
        (LittleEndian_Uint16 (slice b 0 2)) (LittleEndian_Uint16 (slice b 2 4))
        (LittleEndian_Uint16 (slice b 4 6))))"

datatype ValueNumberRange = ValueNumberRange (NumberRange_Min: float32) (NumberRange_Max: float32)

fun ValueNumberRange_Bytes :: "ValueNumberRange \<Rightarrow> byte list" where
  "ValueNumberRange_Bytes (ValueNumberRange mn mx) =
     LittleEndian_PutUint32 mn @ LittleEndian_PutUint32 mx"

definition ValueNumberRange_FromBytes :: "byte list \<Rightarrow> ValueNumberRange result" where
  "ValueNumberRange_FromBytes b =
     (if length b \<noteq> 8 then Err (ErrArrayLength 8)
      else Ok (ValueNumberRange
        (LittleEndian_Uint32 (slice b 0 4)) (LittleEndian_Uint32 (slice b 4 8))))"

datatype ValueRect2D = ValueRect2D (Rect2D_Min: ValueVector2) (Rect2D_Max: ValueVector2)

fun ValueRect2D_Bytes :: "ValueRect2D \<Rightarrow> byte list" where
  "ValueRect2D_Bytes (ValueRect2D mn mx) = ValueVector2_Bytes mn @ ValueVector2_Bytes mx"

fun ValueRect2D_FromBytes :: "ValueRect2D \<Rightarrow> byte list \<Rightarrow> ValueRect2D result" where
  "ValueRect2D_FromBytes (ValueRect2D mn mx) b =
     (if length b \<noteq> 16 then Err (ErrArrayLength 16)
      else Ok (ValueRect2D
        (receiver_after mn (ValueVector2_FromBytes mn (slice b 0 8)))
        (receiver_after mx (ValueVector2_FromBytes mx (slice b 8 16)))))"

definition ValueRect2D_fieldLen :: "nat list" where
  "ValueRect2D_fieldLen = [4, 4, 4, 4]"

fun ValueRect2D_fieldSet :: "ValueRect2D \<Rightarrow> nat \<Rightarrow> byte list \<Rightarrow> ValueRect2D result" where
  "ValueRect2D_fieldSet (ValueRect2D (ValueVector2 x0 y0) (ValueVector2 x1 y1)) i b =
     (if i = 0 then
        map_result (\<lambda>x. ValueRect2D (ValueVector2 x y0) (ValueVector2 x1 y1)) (ValueFloat_FromBytes b)
      else if i = 1 then
        map_result (\<lambda>y. ValueRect2D (ValueVector2 x0 y) (ValueVector2 x1 y1)) (ValueFloat_FromBytes b)
      else if i = 2 then
        map_result (\<lambda>x. ValueRect2D (ValueVector2 x0 y0) (ValueVector2 x y1)) (ValueFloat_FromBytes b)
      else if i = 3 then
        map_result (\<lambda>y. ValueRect2D (ValueVector2 x0 y0) (ValueVector2 x1 y)) (ValueFloat_FromBytes b)
      else Ok (ValueRect2D (ValueVector2 x0 y0) (ValueVector2 x1 y1)))"

fun ValueRect2D_fieldGet :: "ValueRect2D \<Rightarrow> nat \<Rightarrow> byte list" where
  "ValueRect2D_fieldGet (ValueRect2D (ValueVector2 x0 y0) (ValueVector2 x1 y1)) i =
     (if i = 0 then ValueFloat_Bytes x0
      else if i = 1 then ValueFloat_Bytes y0
      else if i = 2 then ValueFloat_Bytes x1
      else if i = 3 then ValueFloat_Bytes y1
      else [])"

datatype ValueColor3uint8 = ValueColor3uint8 (Color3uint8_R: byte) (Color3uint8_G: byte)
  (Color3uint8_B: byte)

fun ValueColor3uint8_Bytes :: "ValueColor3uint8 \<Rightarrow> byte list" where
  "ValueColor3uint8_Bytes (ValueColor3uint8 r g b) = [r, g, b]"

definition ValueColor3uint8_FromBytes :: "byte list \<Rightarrow> ValueColor3uint8 result" where
  "ValueColor3uint8_FromBytes b =
     (if length b \<noteq> 3 then Err (ErrArrayLength 3)
      else Ok (ValueColor3uint8 (b ! 0) (b ! 1) (b ! 2)))"

definition ValueColor3uint8_fieldLen :: "nat list" where
  "ValueColor3uint8_fieldLen = [1, 1, 1]"

text \<open>\<open>v.R = b[0]\<close> has no check of the length before it.\<close>

fun ValueColor3uint8_fieldSet ::
  "ValueColor3uint8 \<Rightarrow> nat \<Rightarrow> byte list \<Rightarrow> ValueColor3uint8 result" where
  "ValueColor3uint8_fieldSet (ValueColor3uint8 r g bl) i b =
     (if i = 0 then (if b = [] then Panic IndexOutOfRange else Ok (ValueColor3uint8 (b ! 0) g bl))
      else if i = 1 then (if b = [] then Panic IndexOutOfRange else Ok (ValueColor3uint8 r (b ! 0) bl))
      else if i = 2 then (if b = [] then Panic IndexOutOfRange else Ok (ValueColor3uint8 r g (b ! 0)))
      else Ok (ValueColor3uint8 r g bl))"

fun ValueColor3uint8_fieldGet :: "ValueColor3uint8 \<Rightarrow> nat \<Rightarrow> byte list" where
  "ValueColor3uint8_fieldGet (ValueColor3uint8 r g bl) i =
     (if i = 0 then [r]
      else if i = 1 then [g]
      else if i = 2 then [bl]
      else [])"


subsection \<open>Discriminated layouts and sequences\<close>

text \<open>\<open>Rotation [9]float32\<close>: an array of exactly nine components.\<close>

datatype float32x9 =
  Float32x9 float32 float32 float32 float32 float32 float32 float32 float32 float32

definition zero_rotation :: float32x9 where
  "zero_rotation = Float32x9 0 0 0 0 0 0 0 0 0"

text \<open>
  \<open>for i, f := range v.Rotation { binary.LittleEndian.PutUint32(r[i*4:i*4+4], math.Float32bits(f)) }\<close>
  and the loop that reads the nine components back from \<open>r[i*4 : i*4+4]\<close>.
\<close>

fun rotation_bytes :: "float32x9 \<Rightarrow> byte list" where
  "rotation_bytes (Float32x9 r0 r1 r2 r3 r4 r5 r6 r7 r8) =
     LittleEndian_PutUint32 r0 @ LittleEndian_PutUint32 r1 @ LittleEndian_PutUint32 r2 @
     LittleEndian_PutUint32 r3 @ LittleEndian_PutUint32 r4 @ LittleEndian_PutUint32 r5 @
     LittleEndian_PutUint32 r6 @ LittleEndian_PutUint32 r7 @ LittleEndian_PutUint32 r8"

definition rotation_from :: "byte list \<Rightarrow> float32x9" where
  "rotation_from r = Float32x9
     (LittleEndian_Uint32 (slice r 0 4)) (LittleEndian_Uint32 (slice r 4 8))
     (LittleEndian_Uint32 (slice r 8 12)) (LittleEndian_Uint32 (slice r 12 16))
     (LittleEndian_Uint32 (slice r 16 20)) (LittleEndian_Uint32 (slice r 20 24))
     (LittleEndian_Uint32 (slice r 24 28)) (LittleEndian_Uint32 (slice r 28 32))
     (LittleEndian_Uint32 (slice r 32 36))"

datatype ValueCFrame = ValueCFrame (Special: byte) (Rotation: float32x9) (Position: ValueVector3)

text \<open>
  \<open>make([]byte, 49)\<close> leaves \<open>b[0]\<close> at zero, the value of \<open>Special\<close> on that branch.
\<close>

fun ValueCFrame_Bytes :: "ValueCFrame \<Rightarrow> byte list" where
  "ValueCFrame_Bytes (ValueCFrame special rotation position) =
     (if special = 0 then [0] @ rotation_bytes rotation @ ValueVector3_Bytes position
      else [special] @ ValueVector3_Bytes position)"

text \<open>\<open>b[0]\<close> is read before any check of \<open>len(b)\<close>.\<close>

fun ValueCFrame_FromBytes :: "ValueCFrame \<Rightarrow> byte list \<Rightarrow> ValueCFrame result" where
  "ValueCFrame_FromBytes (ValueCFrame special rotation position) b =
     (if b = [] then Panic IndexOutOfRange
      else if b ! 0 = 0 \<and> length b \<noteq> 49 then Err (ErrArrayLength 49)
      else if b ! 0 \<noteq> 0 \<and> length b \<noteq> 13 then Err (ErrArrayLength 13)
      else Ok (ValueCFrame (b ! 0)
        (if b ! 0 = 0 then rotation_from (drop 1 b) else zero_rotation)
        (receiver_after position
           (ValueVector3_FromBytes position (slice b (length b - 12) (length b))))))"

datatype ValueNumberSequenceKeypoint =
  ValueNumberSequenceKeypoint (NSK_Time: float32) (NSK_Value: float32) (NSK_Envelope: float32)

type_synonym ValueNumberSequence = "ValueNumberSequenceKeypoint list"

abbreviation (input) sizeNSK :: nat where "sizeNSK \<equiv> 3 * 4"

fun keypoint_bytes_NSK :: "ValueNumberSequenceKeypoint \<Rightarrow> byte list" where
  "keypoint_bytes_NSK (ValueNumberSequenceKeypoint t v e) =
     LittleEndian_PutUint32 t @ LittleEndian_PutUint32 v @ LittleEndian_PutUint32 e"

text \<open>
  The \<open>i\<close>-th keypoint is written at \<open>ba[i*sizeNSK:]\<close>, so the keypoints follow one
  another after the four bytes of \<open>uint32(len(v))\<close>.
\<close>

definition ValueNumberSequence_Bytes :: "ValueNumberSequence \<Rightarrow> byte list" where
  "ValueNumberSequence_Bytes v =
     LittleEndian_PutUint32 (of_nat (length v)) @ concat (map keypoint_bytes_NSK v)"

definition ValueNumberSequence_FromBytes :: "byte list \<Rightarrow> ValueNumberSequence result" where
  "ValueNumberSequence_FromBytes b =
     (if length b < 4 then Err (ErrArrayLengthAtLeast 4)
      else
        let len = unat (LittleEndian_Uint32 b); ba = drop 4 b
        in if length ba \<noteq> sizeNSK * len
           then Err (ErrExpectedArrayLength (4 + sizeNSK * len) sizeNSK len)
           else Ok (map (\<lambda>i. let bk = drop (i * sizeNSK) ba
                               in ValueNumberSequenceKeypoint
                                    (LittleEndian_Uint32 (slice bk 0 4))
                                    (LittleEndian_Uint32 (slice bk 4 8))
                                    (LittleEndian_Uint32 (slice bk 8 12)))
                        [0..<len]))"

datatype ValueColorSequenceKeypoint =
  ValueColorSequenceKeypoint (CSK_Time: float32) (CSK_Value: ValueColor3) (CSK_Envelope: float32)

type_synonym ValueColorSequence = "ValueColorSequenceKeypoint list"

abbreviation (input) sizeCSK :: nat where "sizeCSK \<equiv> 4 + 3 * 4 + 4"

fun keypoint_bytes_CSK :: "ValueColorSequenceKeypoint \<Rightarrow> byte list" where
  "keypoint_bytes_CSK (ValueColorSequenceKeypoint t (ValueColor3 r g b) e) =
     LittleEndian_PutUint32 t @ LittleEndian_PutUint32 r @ LittleEndian_PutUint32 g @
     LittleEndian_PutUint32 b @ LittleEndian_PutUint32 e"

definition ValueColorSequence_Bytes :: "ValueColorSequence \<Rightarrow> byte list" where
  "ValueColorSequence_Bytes v =
     LittleEndian_PutUint32 (of_nat (length v)) @ concat (map keypoint_bytes_CSK v)"

text \<open>
  The call \<open>c3.FromBytes(bk[4:16])\<close> in the loop fills a local that is never read;
  the keypoint is built from the raw bits.
\<close>

definition ValueColorSequence_FromBytes :: "byte list \<Rightarrow> ValueColorSequence result" where
  "ValueColorSequence_FromBytes b =
     (if length b < 4 then Err (ErrArrayLengthAtLeast 4)
      else
        let len = unat (LittleEndian_Uint32 b); ba = drop 4 b
        in if length ba \<noteq> sizeCSK * len
           then Err (ErrExpectedArrayLength (4 + sizeCSK * len) sizeCSK len)
           else Ok (map (\<lambda>i. let bk = drop (i * sizeCSK) ba
                               in ValueColorSequenceKeypoint
                                    (LittleEndian_Uint32 (slice bk 0 4))
                                    (ValueColor3 (LittleEndian_Uint32 (slice bk 4 8))
                                                 (LittleEndian_Uint32 (slice bk 8 12))
                                                 (LittleEndian_Uint32 (slice bk 12 16)))
                                    (LittleEndian_Uint32 (slice bk 16 20)))
                        [0..<len]))"

datatype ValuePhysicalProperties =
  ValuePhysicalProperties (CustomPhysics: byte) (Density: float32) (Friction: float32)
    (Elasticity: float32) (FrictionWeight: float32) (ElasticityWeight: float32)

fun ValuePhysicalProperties_Bytes :: "ValuePhysicalProperties \<Rightarrow> byte list" where
  "ValuePhysicalProperties_Bytes (ValuePhysicalProperties c d f e fw ew) =
     (if c \<noteq> 0 then
        [c] @ LittleEndian_PutUint32 d @ LittleEndian_PutUint32 f @ LittleEndian_PutUint32 e @
        LittleEndian_PutUint32 fw @ LittleEndian_PutUint32 ew
      else [0])"

text \<open>
  \<open>b[0]\<close> is read before any check of \<open>len(b)\<close>.  The two guards ask for 21 bytes
  when \<open>b[0] == 0\<close> and for one byte otherwise, so the branch that reads the five
  floats runs on a one-byte slice and \<open>p[0*4 : 0*4+4]\<close> is out of bounds.
\<close>

fun ValuePhysicalProperties_FromBytes ::
  "ValuePhysicalProperties \<Rightarrow> byte list \<Rightarrow> ValuePhysicalProperties result" where
  "ValuePhysicalProperties_FromBytes (ValuePhysicalProperties c d f e fw ew) b =
     (if b = [] then Panic IndexOutOfRange
      else if b ! 0 = 0 \<and> length b \<noteq> 21 then Err (ErrArrayLength 21)
      else if b ! 0 \<noteq> 0 \<and> length b \<noteq> 1 then Err (ErrArrayLength 1)
      else if b ! 0 \<noteq> 0 then
        (let p = drop 1 b
         in if length p < 20 then Panic SliceBoundsOutOfRange
            else Ok (ValuePhysicalProperties (b ! 0)
                   (LittleEndian_Uint32 (slice p 0 4)) (LittleEndian_Uint32 (slice p 4 8))
                   (LittleEndian_Uint32 (slice p 8 12)) (LittleEndian_Uint32 (slice p 12 16))
                   (LittleEndian_Uint32 (slice p 16 20))))
      else Ok (ValuePhysicalProperties (b ! 0) 0 0 0 0 0))"

subsection \<open>The \<open>Value\<close> interface\<close>

text \<open>
  A \<open>Value\<close> is one of the 27 concrete types; the constructor is its dynamic type.
\<close>

datatype Value =
    VString ValueString
  | VBool ValueBool
  | VInt ValueInt
  | VFloat ValueFloat
  | VDouble ValueDouble
  | VUDim ValueUDim
  | VUDim2 ValueUDim2
  | VRay ValueRay
  | VFaces ValueFaces
  | VAxes ValueAxes
  | VBrickColor ValueBrickColor
  | VColor3 ValueColor3
  | VVector2 ValueVector2
  | VVector3 ValueVector3
  | VVector2int16 ValueVector2int16
  | VCFrame ValueCFrame
  | VToken ValueToken
  | VReference ValueReference
  | VVector3int16 ValueVector3int16
  | VNumberSequence ValueNumberSequence
  | VColorSequence ValueColorSequence
  | VNumberRange ValueNumberRange
  | VRect2D ValueRect2D
  | VPhysicalProperties ValuePhysicalProperties
  | VColor3uint8 ValueColor3uint8
  | VInt64 ValueInt64
  | VSharedString ValueSharedString

text \<open>\<open>v.Type()\<close>.\<close>

fun Type_of :: "Value \<Rightarrow> Type" where
  "Type_of (VString _) = TypeString"
| "Type_of (VBool _) = TypeBool"
| "Type_of (VInt _) = TypeInt"
| "Type_of (VFloat _) = TypeFloat"
| "Type_of (VDouble _) = TypeDouble"
| "Type_of (VUDim _) = TypeUDim"
| "Type_of (VUDim2 _) = TypeUDim2"
| "Type_of (VRay _) = TypeRay"
| "Type_of (VFaces _) = TypeFaces"
| "Type_of (VAxes _) = TypeAxes"
| "Type_of (VBrickColor _) = TypeBrickColor"
| "Type_of (VColor3 _) = TypeColor3"
| "Type_of (VVector2 _) = TypeVector2"
| "Type_of (VVector3 _) = TypeVector3"
| "Type_of (VVector2int16 _) = TypeVector2int16"
| "Type_of (VCFrame _) = TypeCFrame"
| "Type_of (VToken _) = TypeToken"
| "Type_of (VReference _) = TypeReference"
| "Type_of (VVector3int16 _) = TypeVector3int16"
| "Type_of (VNumberSequence _) = TypeNumberSequence"
| "Type_of (VColorSequence _) = TypeColorSequence"
| "Type_of (VNumberRange _) = TypeNumberRange"
| "Type_of (VRect2D _) = TypeRect2D"
| "Type_of (VPhysicalProperties _) = TypePhysicalProperties"
| "Type_of (VColor3uint8 _) = TypeColor3uint8"
| "Type_of (VInt64 _) = TypeInt64"
| "Type_of (VSharedString _) = TypeSharedString"

text \<open>\<open>v.Bytes()\<close>.\<close>

fun Bytes :: "Value \<Rightarrow> byte list" where
  "Bytes (VString v) = ValueString_Bytes v"
| "Bytes (VBool v) = ValueBool_Bytes v"
| "Bytes (VInt v) = ValueInt_Bytes v"
| "Bytes (VFloat v) = ValueFloat_Bytes v"
| "Bytes (VDouble v) = ValueDouble_Bytes v"
| "Bytes (VUDim v) = ValueUDim_Bytes v"
| "Bytes (VUDim2 v) = ValueUDim2_Bytes v"
| "Bytes (VRay v) = ValueRay_Bytes v"
| "Bytes (VFaces v) = ValueFaces_Bytes v"
| "Bytes (VAxes v) = ValueAxes_Bytes v"
| "Bytes (VBrickColor v) = ValueBrickColor_Bytes v"
| "Bytes (VColor3 v) = ValueColor3_Bytes v"
| "Bytes (VVector2 v) = ValueVector2_Bytes v"
| "Bytes (VVector3 v) = ValueVector3_Bytes v"
| "Bytes (VVector2int16 v) = ValueVector2int16_Bytes v"
| "Bytes (VCFrame v) = ValueCFrame_Bytes v"
| "Bytes (VToken v) = ValueToken_Bytes v"
| "Bytes (VReference v) = ValueReference_Bytes v"
| "Bytes (VVector3int16 v) = ValueVector3int16_Bytes v"
| "Bytes (VNumberSequence v) = ValueNumberSequence_Bytes v"
| "Bytes (VColorSequence v) = ValueColorSequence_Bytes v"
| "Bytes (VNumberRange v) = ValueNumberRange_Bytes v"
| "Bytes (VRect2D v) = ValueRect2D_Bytes v"
| "Bytes (VPhysicalProperties v) = ValuePhysicalProperties_Bytes v"
| "Bytes (VColor3uint8 v) = ValueColor3uint8_Bytes v"
| "Bytes (VInt64 v) = ValueInt64_Bytes v"
| "Bytes (VSharedString v) = ValueSharedString_Bytes v"

text \<open>
  \<open>v.FromBytes(b)\<close>: the first argument is the receiver, the result its value after
  the call when the call returns \<open>nil\<close>.
\<close>

fun FromBytes :: "Value \<Rightarrow> byte list \<Rightarrow> Value result" where
  "FromBytes (VString v) b = map_result VString (ValueString_FromBytes b)"
| "FromBytes (VBool v) b = map_result VBool (ValueBool_FromBytes b)"
| "FromBytes (VInt v) b = map_result VInt (ValueInt_FromBytes b)"
| "FromBytes (VFloat v) b = map_result VFloat (ValueFloat_FromBytes b)"
| "FromBytes (VDouble v) b = map_result VDouble (ValueDouble_FromBytes b)"
| "FromBytes (VUDim v) b = map_result VUDim (ValueUDim_FromBytes v b)"
| "FromBytes (VUDim2 v) b = map_result VUDim2 (ValueUDim2_FromBytes v b)"
| "FromBytes (VRay v) b = map_result VRay (ValueRay_FromBytes b)"
| "FromBytes (VFaces v) b = map_result VFaces (ValueFaces_FromBytes b)"
| "FromBytes (VAxes v) b = map_result VAxes (ValueAxes_FromBytes b)"
| "FromBytes (VBrickColor v) b = map_result VBrickColor (ValueBrickColor_FromBytes b)"
| "FromBytes (VColor3 v) b = map_result VColor3 (ValueColor3_FromBytes v b)"
| "FromBytes (VVector2 v) b = map_result VVector2 (ValueVector2_FromBytes v b)"
| "FromBytes (VVector3 v) b = map_result VVector3 (ValueVector3_FromBytes v b)"
| "FromBytes (VVector2int16 v) b = map_result VVector2int16 (ValueVector2int16_FromBytes b)"
| "FromBytes (VCFrame v) b = map_result VCFrame (ValueCFrame_FromBytes v b)"
| "FromBytes (VToken v) b = map_result VToken (ValueToken_FromBytes b)"
| "FromBytes (VReference v) b = map_result VReference (ValueReference_FromBytes b)"
| "FromBytes (VVector3int16 v) b = map_result VVector3int16 (ValueVector3int16_FromBytes b)"
| "FromBytes (VNumberSequence v) b = map_result VNumberSequence (ValueNumberSequence_FromBytes b)"
| "FromBytes (VColorSequence v) b = map_result VColorSequence (ValueColorSequence_FromBytes b)"
| "FromBytes (VNumberRange v) b = map_result VNumberRange (ValueNumberRange_FromBytes b)"
| "FromBytes (VRect2D v) b = map_result VRect2D (ValueRect2D_FromBytes v b)"
| "FromBytes (VPhysicalProperties v) b =
     map_result VPhysicalProperties (ValuePhysicalProperties_FromBytes v b)"
| "FromBytes (VColor3uint8 v) b = map_result VColor3uint8 (ValueColor3uint8_FromBytes b)"
| "FromBytes (VInt64 v) b = map_result VInt64 (ValueInt64_FromBytes b)"
| "FromBytes (VSharedString v) b = map_result VSharedString (ValueSharedString_FromBytes b)"

text \<open>
  \<open>valueGenerators[typ]\<close>: the zero value of the type, and no generator for a
  type that is not one of the 27.
\<close>

definition newValue :: "Type \<Rightarrow> Value option" where
  "newValue typ =
     (if typ = TypeString then Some (VString [])
      else if typ = TypeBool then Some (VBool False)
      else if typ = TypeInt then Some (VInt 0)
      else if typ = TypeFloat then Some (VFloat 0)
      else if typ = TypeDouble then Some (VDouble 0)
      else if typ = TypeUDim then Some (VUDim (ValueUDim 0 0))
      else if typ = TypeUDim2 then Some (VUDim2 (ValueUDim2 0 0 0 0))
      else if typ = TypeRay then Some (VRay (ValueRay 0 0 0 0 0 0))
      else if typ = TypeFaces then Some (VFaces (ValueFaces False False False False False False))
      else if typ = TypeAxes then Some (VAxes (ValueAxes False False False))
      else if typ = TypeBrickColor then Some (VBrickColor 0)
      else if typ = TypeColor3 then Some (VColor3 (ValueColor3 0 0 0))
      else if typ = TypeVector2 then Some (VVector2 (ValueVector2 0 0))
      else if typ = TypeVector3 then Some (VVector3 (ValueVector3 0 0 0))
      else if typ = TypeVector2int16 then Some (VVector2int16 (ValueVector2int16 0 0))
      else if typ = TypeCFrame
        then Some (VCFrame (ValueCFrame 0 zero_rotation (ValueVector3 0 0 0)))
      else if typ = TypeToken then Some (VToken 0)
      else if typ = TypeReference then Some (VReference 0)
      else if typ = TypeVector3int16 then Some (VVector3int16 (ValueVector3int16 0 0 0))
      else if typ = TypeNumberSequence then Some (VNumberSequence [])
      else if typ = TypeColorSequence then Some (VColorSequence [])
      else if typ = TypeNumberRange then Some (VNumberRange (ValueNumberRange 0 0))
      else if typ = TypeRect2D
        then Some (VRect2D (ValueRect2D (ValueVector2 0 0) (ValueVector2 0 0)))
      else if typ = TypePhysicalProperties
        then Some (VPhysicalProperties (ValuePhysicalProperties 0 0 0 0 0 0))
      else if typ = TypeColor3uint8 then Some (VColor3uint8 (ValueColor3uint8 0 0 0))
      else if typ = TypeInt64 then Some (VInt64 0)
      else if typ = TypeSharedString then Some (VSharedString 0)
      else None)"

subsection \<open>The \<open>fielder\<close> interface (arrays.go)\<close>

text \<open>
  Seven types implement \<open>fielder\<close>; for the others the type assertion
  \<open>v.(fielder)\<close> panics, which is \<open>fieldLen v = None\<close> here.
\<close>

fun fieldLen :: "Value \<Rightarrow> nat list option" where
  "fieldLen (VUDim v) = Some ValueUDim_fieldLen"
| "fieldLen (VUDim2 v) = Some ValueUDim2_fieldLen"
| "fieldLen (VColor3 v) = Some ValueColor3_fieldLen"
| "fieldLen (VVector2 v) = Some ValueVector2_fieldLen"
| "fieldLen (VVector3 v) = Some ValueVector3_fieldLen"
| "fieldLen (VRect2D v) = Some ValueRect2D_fieldLen"
| "fieldLen (VColor3uint8 v) = Some ValueColor3uint8_fieldLen"
| "fieldLen _ = None"

fun fieldGet :: "Value \<Rightarrow> nat \<Rightarrow> byte list" where
  "fieldGet (VUDim v) i = ValueUDim_fieldGet v i"
| "fieldGet (VUDim2 v) i = ValueUDim2_fieldGet v i"
| "fieldGet (VColor3 v) i = ValueColor3_fieldGet v i"
| "fieldGet (VVector2 v) i = ValueVector2_fieldGet v i"
| "fieldGet (VVector3 v) i = ValueVector3_fieldGet v i"
| "fieldGet (VRect2D v) i = ValueRect2D_fieldGet v i"
| "fieldGet (VColor3uint8 v) i = ValueColor3uint8_fieldGet v i"
| "fieldGet _ i = []"

fun fieldSet :: "Value \<Rightarrow> nat \<Rightarrow> byte list \<Rightarrow> Value result" where
  "fieldSet (VUDim v) i b = map_result VUDim (ValueUDim_fieldSet v i b)"
| "fieldSet (VUDim2 v) i b = map_result VUDim2 (ValueUDim2_fieldSet v i b)"
| "fieldSet (VColor3 v) i b = map_result VColor3 (ValueColor3_fieldSet v i b)"
| "fieldSet (VVector2 v) i b = map_result VVector2 (ValueVector2_fieldSet v i b)"
| "fieldSet (VVector3 v) i b = map_result VVector3 (ValueVector3_fieldSet v i b)"
| "fieldSet (VRect2D v) i b = map_result VRect2D (ValueRect2D_fieldSet v i b)"
| "fieldSet (VColor3uint8 v) i b = map_result VColor3uint8 (ValueColor3uint8_fieldSet v i b)"
| "fieldSet v i b = Panic TypeAssertion"


section \<open>Arrays of values (arrays.go)\<close>

subsection \<open>Field-split packing\<close>

text \<open>
  The first loop of \<open>interleaveFields\<close>: the type assertion \<open>v.(fielder)\<close>, then the
  comparison of \<open>Type()\<close> with \<open>id\<close> (here \<open>tid\<close>), element by element.
\<close>

fun assert_fielders :: "Type \<Rightarrow> nat \<Rightarrow> Value list \<Rightarrow> unit result" where
  "assert_fielders tid i [] = Ok ()"
| "assert_fielders tid i (v # a) =
     (if fieldLen v = None then Panic TypeAssertion
      else if Type_of v \<noteq> tid then Err (ErrElementType i (Type_of v) tid)
      else assert_fielders tid (Suc i) a)"

text \<open>
  \<open>fields[f]\<close> is the sub-slice \<open>b[ofields[f]:ofields[f+1]]\<close> of the output, and the
  sub-slices lie side by side in \<open>b\<close>.  The copy loop writes \<open>fieldGet(f)\<close> of the
  \<open>i\<close>-th value at \<open>field[i*nbytes[f]:]\<close>, so a field slice is filled with the
  \<open>f\<close>-th field of every value in turn, after the defensive check of its length.
\<close>

definition field_lengths_ok :: "Value list \<Rightarrow> nat list \<Rightarrow> bool" where
  "field_lengths_ok af nbytes \<longleftrightarrow>
     list_all (\<lambda>v. list_all (\<lambda>f. length (fieldGet v f) = nbytes ! f) [0..<length nbytes]) af"

definition field_column :: "Value list \<Rightarrow> nat \<Rightarrow> byte list" where
  "field_column af f = concat (map (\<lambda>v. fieldGet v f) af)"

text \<open>
  The last loop: \<open>interleave(field, nbytes[i])\<close> on each field slice in turn; the
  first error ends the call.  The result is the whole of \<open>b\<close>.
\<close>

fun interleave_each :: "byte list list \<Rightarrow> nat list \<Rightarrow> byte list result" where
  "interleave_each [] nbytes = Ok []"
| "interleave_each (field # fields) nbytes =
     and_then (interleave field (int (hd nbytes)))
       (\<lambda>field'. map_result (\<lambda>rest. field' @ rest) (interleave_each fields (tl nbytes)))"

definition interleaveFields :: "Type \<Rightarrow> Value list \<Rightarrow> byte list result" where
  "interleaveFields tid a =
     (if a = [] then Ok []
      else
        and_then (assert_fielders tid 0 a) (\<lambda>_.
          let nbytes = the (fieldLen (hd a));
              nfields = length nbytes
          in if \<not> field_lengths_ok a nbytes then Panic FieldLengthMismatch
             else interleave_each (map (field_column a) [0..<nfields]) nbytes))"

text \<open>
  \<open>deinterleaveFields\<close> works on sub-slices of its argument \<open>b\<close> and deinterleaves
  them in place, so it rewrites the caller's buffer.  The model returns the contents
  of \<open>b\<close> after the call together with the outcome.

  \<open>split_fields b nvalues nbytes\<close> are the sub-slices \<open>b[ofields[i]:ofields[i+1]]\<close>,
  field \<open>i\<close> being \<open>nbytes[i] * nvalues\<close> bytes long.
\<close>

fun split_fields :: "byte list \<Rightarrow> nat \<Rightarrow> nat list \<Rightarrow> byte list list" where
  "split_fields b nvalues [] = []"
| "split_fields b nvalues (n # nbytes) =
     take (n * nvalues) b # split_fields (drop (n * nvalues) b) nvalues nbytes"

text \<open>
  Deinterleave each field slice in turn.  An error leaves the slices before it
  rewritten and the others as they were.
\<close>

fun deinterleave_each :: "byte list list \<Rightarrow> nat list \<Rightarrow> byte list list \<times> unit result" where
  "deinterleave_each [] nbytes = ([], Ok ())"
| "deinterleave_each (field # fields) nbytes =
     (case deinterleave field (int (hd nbytes)) of
        Ok field' \<Rightarrow>
          (case deinterleave_each fields (tl nbytes) of
             (fields', r) \<Rightarrow> (field' # fields', r))
      | Err e \<Rightarrow> (field # fields, Err e)
      | Panic p \<Rightarrow> (field # fields, Panic p)
      | Diverges \<Rightarrow> (field # fields, Diverges))"

text \<open>
  The body of the last loop for the \<open>i\<close>-th value: \<open>fieldSet\<close> of every field from
  \<open>field[i*n : i*n+n]\<close>, a returned error dropped.
\<close>

fun set_fields :: "Value \<Rightarrow> nat \<Rightarrow> nat \<Rightarrow> byte list list \<Rightarrow> nat list \<Rightarrow> Value result" where
  "set_fields v i f [] nbytes = Ok v"
| "set_fields v i f (field # fields) nbytes =
     (let n = hd nbytes; fb = slice field (i * n) (i * n + n)
      in case fieldSet v f fb of
           Ok v' \<Rightarrow> set_fields v' i (Suc f) fields (tl nbytes)
         | Err e \<Rightarrow> set_fields v i (Suc f) fields (tl nbytes)
         | Panic p \<Rightarrow> Panic p
         | Diverges \<Rightarrow> Diverges)"

fun collect :: "'a result list \<Rightarrow> 'a list result" where
  "collect [] = Ok []"
| "collect (r # rs) = and_then r (\<lambda>x. map_result (\<lambda>xs. x # xs) (collect rs))"

definition deinterleaveFields :: "Type \<Rightarrow> byte list \<Rightarrow> byte list \<times> Value list result" where
  "deinterleaveFields tid b =
     (if b = [] then (b, Ok [])
      else case newValue tid of
        None \<Rightarrow> (b, Err (ErrTypeIdentifier tid))
      | Some zero \<Rightarrow>
          (case fieldLen zero of
             None \<Rightarrow> (b, Panic TypeAssertion)
           | Some nbytes \<Rightarrow>
               let tbytes = sum_list nbytes
               in if tbytes = 0 then (b, Panic DivideByZero)
                  else if length b mod tbytes \<noteq> 0
                    then (b, Err (ErrNotDivisible (length b) tbytes))
                  else
                    let nvalues = length b div tbytes
                    in case deinterleave_each (split_fields b nvalues nbytes) nbytes of
                         (fields, r) \<Rightarrow>
                           (concat fields,
                            and_then r (\<lambda>_.
                              collect (map (\<lambda>i. set_fields zero i 0 fields nbytes)
                                         [0..<nvalues])))))"

subsection \<open>Concatenation\<close>

fun appendValueBytes_from :: "Type \<Rightarrow> nat \<Rightarrow> Value list \<Rightarrow> byte list \<Rightarrow> byte list result" where
  "appendValueBytes_from tid i [] b = Ok b"
| "appendValueBytes_from tid i (v # a) b =
     (if Type_of v \<noteq> tid then Err (ErrElementType i (Type_of v) tid)
      else appendValueBytes_from tid (Suc i) a (b @ Bytes v))"

definition appendValueBytes :: "Type \<Rightarrow> Value list \<Rightarrow> byte list result" where
  "appendValueBytes tid a = appendValueBytes_from tid 0 a []"

text \<open>
  The loop of \<open>appendByteValues\<close> for \<open>size \<ge> 0\<close>, on the bytes from \<open>b[i:]\<close> on:
  \<open>for i := 0; i+size <= len(b); i += size\<close>.  With \<open>size = 0\<close> the index never
  moves, and the loop ends only if \<open>FromBytes\<close> fails on the empty slice.
  \<open>gen\<close> is \<open>valueGenerators[id]\<close>, called once for each value.
\<close>

function appendByteValues_fixed :: "Value option \<Rightarrow> nat \<Rightarrow> byte list \<Rightarrow> Value list result" where
  "appendByteValues_fixed gen sz b =
     (if sz \<le> length b then
        (case gen of
           None \<Rightarrow> Panic NilFunction
         | Some zero \<Rightarrow>
             and_then (FromBytes zero (take sz b)) (\<lambda>v.
               if sz = 0 then Diverges
               else map_result (\<lambda>a. v # a) (appendByteValues_fixed gen sz (drop sz b))))
      else Ok [])"
  by pat_completeness auto
termination
  by (relation "measure (\<lambda>(gen, sz, b). length b)") auto

text \<open>
  The loop for \<open>size < 0\<close>, on the remaining bytes \<open>ba\<close>: the first four bytes give
  the number of items, \<open>field\<close> the bytes of each item.
\<close>

function appendByteValues_variable :: "Value option \<Rightarrow> nat \<Rightarrow> byte list \<Rightarrow> Value list result" where
  "appendByteValues_variable gen field ba =
     (if length ba > 0 then
        (if length ba < 4 then Err (ErrExpectedMoreBytes 4)
         else
           let sz = unat (LittleEndian_Uint32 ba)
           in if length (drop 4 ba) < sz * field then Err (ErrExpectedMoreBytes (sz * field))
              else case gen of
                 None \<Rightarrow> Panic NilFunction
               | Some zero \<Rightarrow>
                   and_then (FromBytes zero (take (4 + sz * field) ba)) (\<lambda>v.
                     map_result (\<lambda>a. v # a)
                       (appendByteValues_variable gen field (drop (4 + sz * field) ba))))
      else Ok [])"
  by pat_completeness auto
termination
  by (relation "measure (\<lambda>(gen, field, ba). length ba)") auto

definition appendByteValues :: "Type \<Rightarrow> byte list \<Rightarrow> int \<Rightarrow> nat \<Rightarrow> Value list result" where
  "appendByteValues tid b sz field =
     (let gen = newValue tid
      in if sz < 0 then appendByteValues_variable gen field b
         else appendByteValues_fixed gen (nat sz) b)"

subsection \<open>\<open>ValuesToBytes\<close>\<close>

text \<open>The loop that compares \<open>v.Type()\<close> with \<open>t\<close>.\<close>

fun check_types :: "Type \<Rightarrow> nat \<Rightarrow> Value list \<Rightarrow> error option" where
  "check_types t i [] = None"
| "check_types t i (v # a) =
     (if Type_of v \<noteq> t then Some (ErrElementType i (Type_of v) t)
      else check_types t (Suc i) a)"

text \<open>
  The \<open>TypeCFrame\<close> case.  The matrix part: \<open>Special\<close>, and the nine components
  when it is zero.  The type assertion of \<open>cf\<close> to a \<open>ValueCFrame\<close> pointer panics
  on another type.
\<close>

fun cframe_matrix_bytes :: "Value list \<Rightarrow> byte list result" where
  "cframe_matrix_bytes [] = Ok []"
| "cframe_matrix_bytes (VCFrame cf # a) =
     map_result
       (\<lambda>b. [Special cf] @ (if Special cf = 0 then rotation_bytes (Rotation cf) else []) @ b)
       (cframe_matrix_bytes a)"
| "cframe_matrix_bytes (_ # a) = Panic TypeAssertion"

fun cframe_positions :: "Value list \<Rightarrow> Value list" where
  "cframe_positions [] = []"
| "cframe_positions (VCFrame cf # a) = VVector3 (Position cf) # cframe_positions a"
| "cframe_positions (v # a) = v # cframe_positions a"

text \<open>
  \<open>pb, _ := interleaveFields(TypeVector3, p)\<close> drops the error; \<open>pb\<close> is then nil.
\<close>

definition ValuesToBytes_CFrame :: "Value list \<Rightarrow> byte list result" where
  "ValuesToBytes_CFrame a =
     and_then (cframe_matrix_bytes a) (\<lambda>b.
       case interleaveFields TypeVector3 (cframe_positions a) of
         Ok pb \<Rightarrow> Ok (b @ pb)
       | Err e \<Rightarrow> Ok b
       | Panic p \<Rightarrow> Panic p
       | Diverges \<Rightarrow> Diverges)"

text \<open>
  The \<open>TypeReference\<close> case: the first reference as it is, every other one minus
  the one before it, in \<open>int32\<close> arithmetic.
\<close>

fun reference_bytes :: "nat \<Rightarrow> ValueReference \<Rightarrow> Value list \<Rightarrow> byte list result" where
  "reference_bytes i prev [] = Ok []"
| "reference_bytes i prev (VReference ref # a) =
     map_result
       (\<lambda>b. (if i = 0 then ValueReference_Bytes ref else ValueReference_Bytes (ref - prev)) @ b)
       (reference_bytes (Suc i) ref a)"
| "reference_bytes i prev (_ # a) = Panic TypeAssertion"

definition ValuesToBytes_Reference :: "Value list \<Rightarrow> byte list result" where
  "ValuesToBytes_Reference a =
     (if a = [] then Ok []
      else and_then (reference_bytes 0 0 a) (\<lambda>b. interleave b 4))"

fun physical_properties_bytes :: "Value list \<Rightarrow> byte list result" where
  "physical_properties_bytes [] = Ok []"
| "physical_properties_bytes (VPhysicalProperties pp # a) =
     map_result
       (\<lambda>b. [CustomPhysics pp] @
              (if CustomPhysics pp \<noteq> 0 then
                 LittleEndian_PutUint32 (Density pp) @ LittleEndian_PutUint32 (Friction pp) @
                 LittleEndian_PutUint32 (Elasticity pp) @
                 LittleEndian_PutUint32 (FrictionWeight pp) @
                 LittleEndian_PutUint32 (ElasticityWeight pp)
               else []) @ b)
       (physical_properties_bytes a)"
| "physical_properties_bytes (_ # a) = Panic TypeAssertion"

definition ValuesToBytes :: "Type \<Rightarrow> Value list \<Rightarrow> byte list result" where
  "ValuesToBytes t a =
     (if \<not> Valid t then Err (ErrInvalidType t)
      else case check_types t 0 a of
        Some e \<Rightarrow> Err e
      | None \<Rightarrow>
          if t \<in> {TypeString, TypeBool, TypeDouble, TypeRay, TypeFaces, TypeAxes,
                   TypeVector3int16, TypeNumberSequence, TypeColorSequence, TypeNumberRange}
            then appendValueBytes t a
          else if t \<in> {TypeInt, TypeFloat, TypeBrickColor, TypeToken, TypeSharedString}
            then and_then (appendValueBytes t a) (\<lambda>b. interleave b 4)
          else if t = TypeInt64
            then and_then (appendValueBytes t a) (\<lambda>b. interleave b 8)
          else if t \<in> {TypeUDim, TypeUDim2, TypeColor3, TypeVector2, TypeVector3, TypeRect2D,
                        TypeColor3uint8}
            then interleaveFields t a
          else if t = TypeCFrame then ValuesToBytes_CFrame a
          else if t = TypeReference then ValuesToBytes_Reference a
          else if t = TypePhysicalProperties then physical_properties_bytes a
          else if t = TypeVector2int16 then Err ErrNotImplemented
          else Ok [])"

subsection \<open>\<open>ValuesFromBytes\<close>\<close>

text \<open>
  The loop that reads the matrix part of a \<open>CFrame\<close> array, from position \<open>i\<close> with
  \<open>n\<close> the size of the position data expected so far:
  \<open>for n := 0; len(b)-i > n; n += 12\<close>.  It returns the matrices and the position
  where the position data starts.
\<close>

function cframe_matrices :: "byte list \<Rightarrow> nat \<Rightarrow> nat \<Rightarrow> (ValueCFrame list \<times> nat) result" where
  "cframe_matrices b i n =
     (if int (length b) - int i > int n then
        (let special = b ! i; i1 = i + 1
         in if special = 0 then
              (let q = 9 * 4; r = drop i1 b
               in if length r < q then Err (ErrExpectedMoreBytes q)
                  else map_result
                         (\<lambda>(cfs, j). (ValueCFrame special (rotation_from r) (ValueVector3 0 0 0) # cfs, j))
                         (cframe_matrices b (i1 + q) (n + 12)))
            else map_result
                   (\<lambda>(cfs, j). (ValueCFrame special zero_rotation (ValueVector3 0 0 0) # cfs, j))
                   (cframe_matrices b i1 (n + 12)))
      else Ok ([], i))"
  by pat_completeness auto
termination
  by (relation "measure (\<lambda>(b, i, n). length b - i)") auto

text \<open>
  The loop that replaces each decoded position by its \<open>CFrame\<close>: \<open>cfs[i].Position\<close>
  becomes the \<open>ValueVector3\<close> that \<open>p\<close> is asserted to point to, and \<open>a[i] = cfs[i]\<close>.
\<close>

fun set_positions :: "ValueCFrame list \<Rightarrow> Value list \<Rightarrow> Value list result" where
  "set_positions cfs [] = Ok []"
| "set_positions (cf # cfs) (VVector3 p # a) =
     map_result (\<lambda>vs. VCFrame (ValueCFrame (Special cf) (Rotation cf) p) # vs) (set_positions cfs a)"
| "set_positions [] (v # a) = Panic IndexOutOfRange"
| "set_positions cfs (v # a) = Panic TypeAssertion"

definition ValuesFromBytes_CFrame :: "byte list \<Rightarrow> byte list \<times> Value list result" where
  "ValuesFromBytes_CFrame b =
     (case cframe_matrices b 0 0 of
        Ok (cfs, i) \<Rightarrow>
          (case deinterleaveFields TypeVector3 (drop i b) of
             (tail, Ok a) \<Rightarrow>
               (take i b @ tail,
                if length a \<noteq> length cfs then Err ErrPositionsMismatch
                else set_positions cfs a)
           | (tail, r) \<Rightarrow> (take i b @ tail, r))
      | Err e \<Rightarrow> (b, Err e)
      | Panic p \<Rightarrow> (b, Panic p)
      | Diverges \<Rightarrow> (b, Diverges))"

text \<open>
  The loop of the \<open>TypeReference\<close> case over the deinterleaved copy \<open>bc\<close>, from the
  \<open>i\<close>-th value on, \<open>k\<close> values to go; \<open>prev\<close> is \<open>a[i-1]\<close>.  The error of
  \<open>ref.FromBytes\<close> is dropped, and \<open>ref\<close> starts at zero.
\<close>

fun reference_values :: "byte list \<Rightarrow> nat \<Rightarrow> nat \<Rightarrow> ValueReference \<Rightarrow> Value list" where
  "reference_values bc 0 i prev = []"
| "reference_values bc (Suc k) i prev =
     (let ref = receiver_after 0 (ValueReference_FromBytes (slice bc (i * 4) (i * 4 + 4)));
          ref' = (if i > 0 then prev + ref else ref)
      in VReference ref' # reference_values bc k (Suc i) ref')"

definition ValuesFromBytes_Reference :: "byte list \<Rightarrow> Value list result" where
  "ValuesFromBytes_Reference b =
     (if b = [] then Ok []
      else if length b mod 4 \<noteq> 0 then Err (ErrArrayNotDivisibleBy 4)
      else and_then (deinterleave b 4) (\<lambda>bc.
             Ok (reference_values bc (length bc div 4) 0 0)))"

text \<open>
  The loop of the \<open>TypePhysicalProperties\<close> case, on the bytes from \<open>b[i:]\<close> on.
\<close>

fun physical_properties_values :: "byte list \<Rightarrow> Value list result" where
  "physical_properties_values [] = Ok []"
| "physical_properties_values (c # p) =
     (if c \<noteq> 0 then
        (if length p < 5 * 4 then Err (ErrExpectedMoreBytes (5 * 4))
         else map_result
                (\<lambda>a. VPhysicalProperties (ValuePhysicalProperties c
                        (LittleEndian_Uint32 (slice p 0 4)) (LittleEndian_Uint32 (slice p 4 8))
                        (LittleEndian_Uint32 (slice p 8 12)) (LittleEndian_Uint32 (slice p 12 16))
                        (LittleEndian_Uint32 (slice p 16 20))) # a)
                (physical_properties_values (drop (5 * 4) p)))
      else map_result (\<lambda>a. VPhysicalProperties (ValuePhysicalProperties c 0 0 0 0 0) # a)
             (physical_properties_values p))"

text \<open>
  \<open>ValuesFromBytes\<close> with its effect on the argument: the contents of \<open>b\<close> after the
  call, and the outcome.  The scalar cases deinterleave a copy \<open>bc\<close> of \<open>b\<close>; the
  field-split cases and the \<open>CFrame\<close> case hand \<open>b\<close> itself to \<open>deinterleaveFields\<close>.
\<close>

definition ValuesFromBytes_buf :: "Type \<Rightarrow> byte list \<Rightarrow> byte list \<times> Value list result" where
  "ValuesFromBytes_buf t b =
     (if \<not> Valid t then (b, Err (ErrInvalidType t))
      else if t \<in> {TypeBool, TypeFaces, TypeAxes} then (b, appendByteValues t b 1 0)
      else if t = TypeVector3int16 then (b, appendByteValues t b 6 0)
      else if t \<in> {TypeDouble, TypeNumberRange} then (b, appendByteValues t b 8 0)
      else if t = TypeRay then (b, appendByteValues t b 24 0)
      else if t = TypeString then (b, appendByteValues t b (- 1) 1)
      else if t = TypeNumberSequence then (b, appendByteValues t b (- 1) sizeNSK)
      else if t = TypeColorSequence then (b, appendByteValues t b (- 1) sizeCSK)
      else if t \<in> {TypeInt, TypeFloat, TypeBrickColor, TypeToken, TypeSharedString}
        then (b, and_then (deinterleave b 4) (\<lambda>bc. appendByteValues t bc 4 0))
      else if t = TypeInt64
        then (b, and_then (deinterleave b 8) (\<lambda>bc. appendByteValues t bc 8 0))
      else if t \<in> {TypeUDim, TypeUDim2, TypeColor3, TypeVector2, TypeVector3, TypeRect2D,
                    TypeColor3uint8}
        then deinterleaveFields t b
      else if t = TypeCFrame then ValuesFromBytes_CFrame b
      else if t = TypeReference then (b, ValuesFromBytes_Reference b)
      else if t = TypePhysicalProperties then (b, physical_properties_values b)
      else if t = TypeVector2int16 then (b, Err ErrNotImplemented)
      else (b, Ok []))"

text \<open>The value \<open>ValuesFromBytes\<close> returns.\<close>

definition ValuesFromBytes :: "Type \<Rightarrow> byte list \<Rightarrow> Value list result" where
  "ValuesFromBytes t b = snd (ValuesFromBytes_buf t b)"


section \<open>What a decoder gives back\<close>

text \<open>
  The encodings of a \<open>CFrame\<close> with \<open>Special \<noteq> 0\<close> and of a \<open>PhysicalProperties\<close>
  with \<open>CustomPhysics = 0\<close> leave out the rotation and the five floats; a decoded
  value has them at zero.
\<close>

fun normalized :: "Value \<Rightarrow> Value" where
  "normalized (VCFrame (ValueCFrame special rotation position)) =
     VCFrame (ValueCFrame special (if special = 0 then rotation else zero_rotation) position)"
| "normalized (VPhysicalProperties (ValuePhysicalProperties c d f e fw ew)) =
     VPhysicalProperties
       (if c \<noteq> 0 then ValuePhysicalProperties c d f e fw ew
        else ValuePhysicalProperties c 0 0 0 0 0)"
| "normalized v = v"

text \<open>
  A string and a sequence are written after their length as a \<open>uint32\<close>; the
  length of the value has to be one.
\<close>

fun length_fits :: "Value \<Rightarrow> bool" where
  "length_fits (VString v) = (length v < 2 ^ 32)"
| "length_fits (VNumberSequence v) = (length v < 2 ^ 32)"
| "length_fits (VColorSequence v) = (length v < 2 ^ 32)"
| "length_fits v = True"

text \<open>The kinds whose array is the interleaved concatenation of the values.\<close>

definition interleaved_scalar :: "Type \<Rightarrow> bool" where
  "interleaved_scalar t \<longleftrightarrow>
     t \<in> {TypeInt, TypeFloat, TypeBrickColor, TypeToken, TypeSharedString, TypeInt64}"

text \<open>
  What the matrix loop of the \<open>CFrame\<close> case reads for a value: \<open>Special\<close>, the
  rotation when it is written, and a position still at zero.
\<close>

fun matrix_of :: "Value \<Rightarrow> ValueCFrame" where
  "matrix_of (VCFrame (ValueCFrame special rotation position)) =
     ValueCFrame special (if special = 0 then rotation else zero_rotation) (ValueVector3 0 0 0)"
| "matrix_of v = ValueCFrame 0 zero_rotation (ValueVector3 0 0 0)"


section \<open>Properties of the scalar primitives\<close>

lemma bit_shl1: "bit ((w::'a::len word) * 2) k \<longleftrightarrow> 0 < k \<and> k < LENGTH('a) \<and> bit w (k - 1)"
proof -
  have "bit (w * 2) k = bit (2 * w) k" by (simp add: mult.commute)
  also have "\<dots> = (0 < k \<and> k < LENGTH('a) \<and> bit w (k - 1))"
    by (auto simp: bit_double_iff possible_bit_word)
  finally show ?thesis .
qed

lemma bit_sar31: "k < 32 \<Longrightarrow> bit (signed_drop_bit 31 (x::32 word)) k = bit x 31"
  by (cases "k = 0") (auto simp: bit_signed_drop_bit_iff dest: bit_imp_le_length)

lemma bit_shl31_and1: "bit (push_bit 31 ((u::32 word) AND 1)) 31 = bit u 0"
  unfolding bit_push_bit_iff bit_and_iff bit_1_iff by (simp add: possible_bit_word)

lemma decodeZigzag32_encodeZigzag32: "decodeZigzag32 (encodeZigzag32 n) = n"
proof (rule bit_word_eqI)
  fix k assume "k < LENGTH(32)"
  then have k: "k < 32" by simp
  have b0: "bit (encodeZigzag32 n) 0 = bit n 31"
    unfolding encodeZigzag32_def by (simp add: bit_xor_iff bit_shl1 bit_signed_drop_bit_iff)
  have bk: "bit (encodeZigzag32 n) (Suc j) = (bit n j \<noteq> bit n 31)" if "j < 31" for j
    unfolding encodeZigzag32_def using that
    by (auto simp add: bit_xor_iff bit_shl1 bit_signed_drop_bit_iff)
  have m: "bit (signed_drop_bit 31 (push_bit 31 (u AND 1))) k = bit u 0" for u :: "32 word"
    using k bit_sar31 [of k "push_bit 31 (u AND 1)"] bit_shl31_and1 [of u] by simp
  have d: "bit (decodeZigzag32 u) k = (bit (drop_bit 1 u) k \<noteq> bit u 0)" for u
    unfolding decodeZigzag32_def bit_xor_iff m by simp
  show "bit (decodeZigzag32 (encodeZigzag32 n)) k = bit n k"
  proof (cases "k < 31")
    case True
    then show ?thesis
      unfolding d by (auto simp add: bit_drop_bit_eq b0 bk)
  next
    case False
    with k have "k = 31" by simp
    then show ?thesis
      unfolding d by (auto simp add: bit_drop_bit_eq b0 dest: bit_imp_le_length)
  qed
qed

lemma bit_encodeRobloxFloat: "k < 32 \<Longrightarrow> bit (encodeRobloxFloat n) k = bit n ((k + 31) mod 32)"
  unfolding encodeRobloxFloat_def Let_def
  by (cases k) (auto simp: bit_or_iff bit_shl1 bit_drop_bit_eq mod_Suc dest: bit_imp_le_length)

lemma decodeRobloxFloat_encodeRobloxFloat: "decodeRobloxFloat (encodeRobloxFloat n) = n"
proof (rule bit_word_eqI)
  fix k assume "k < LENGTH(32)"
  then have k: "k < 32" by simp
  show "bit (decodeRobloxFloat (encodeRobloxFloat n)) k = bit n k"
  proof (cases "k < 31")
    case True
    then show ?thesis
      unfolding decodeRobloxFloat_def Let_def
      by (auto simp: bit_or_iff bit_drop_bit_eq bit_push_bit_iff bit_encodeRobloxFloat dest: bit_imp_le_length)
  next
    case False
    with k have "k = 31" by simp
    then show ?thesis
      unfolding decodeRobloxFloat_def Let_def
      by (auto simp: bit_or_iff bit_drop_bit_eq bit_push_bit_iff bit_encodeRobloxFloat dest: bit_imp_le_length)
  qed
qed

lemma encodeRobloxFloat_rotl: "encodeRobloxFloat n = word_rotl 1 n"
proof (rule bit_word_eqI)
  fix k assume "k < LENGTH(32)"
  then show "bit (encodeRobloxFloat n) k = bit (word_rotl 1 n) k"
    by (simp add: bit_encodeRobloxFloat bit_word_rotl_iff add.commute)
qed

lemma count_filter: "length (filter P xs) = (\<Sum>x\<leftarrow>xs. if P x then 1 else 0)"
  by (induction xs) auto

lemma popcount_sum: "popcount w = (\<Sum>i = 0..<32. if bit w i then 1 else 0)"
  unfolding popcount_def count_filter
  by (simp add: interv_sum_list_conv_sum_set_nat)

lemma popcount_encodeRobloxFloat: "popcount (encodeRobloxFloat n) = popcount n"
proof -
  have "(\<Sum>i = 0..<32. if bit (encodeRobloxFloat n) i then 1 else 0) =
        (\<Sum>i = 0..<32. if bit n ((i + 31) mod 32) then 1 else (0::nat))"
    by (rule sum.cong) (auto simp: bit_encodeRobloxFloat)
  also have "\<dots> = (\<Sum>i = 0..<32. if bit n i then 1 else 0)"
    by (rule sum.reindex_bij_witness [where i = "\<lambda>i. (i + 1) mod 32" and j = "\<lambda>i. (i + 31) mod 32"])
       (auto simp: mod_simps)
  finally show ?thesis by (simp add: popcount_sum)
qed


section \<open>Properties of the interleave primitive\<close>

subsection \<open>The two loops of \<open>interleave\<close>\<close>

text \<open>The scratch-buffer branch, loop by loop.\<close>

lemma inner_rect_length:
  "length (fold (\<lambda>c t'. t'[c * rows + r := f c]) [0..<m] t) = length t"
  by (induction m) auto

lemma inner_rect_nth:
  assumes "r < rows" "k < length t"
  shows "fold (\<lambda>c t'. t'[c * rows + r := f c]) [0..<m] t ! k =
         (if k mod rows = r \<and> k div rows < m then f (k div rows) else t ! k)"
proof (induction m)
  case 0 show ?case by simp
next
  case (Suc m)
  have eq: "k = m * rows + r \<longleftrightarrow> k mod rows = r \<and> k div rows = m"
    using assms by (auto simp: div_mult_mod_eq [symmetric] simp del: div_mult_mod_eq)
  show ?case
    using Suc eq assms(2)
    by (auto simp: inner_rect_length nth_list_update less_Suc_eq)
qed

lemma outer_rect_length:
  "length (fold (\<lambda>r t. fold (\<lambda>c t'. t'[c * rows + r := f r c]) [0..<cols] t) [0..<m] t0) = length t0"
  by (induction m) (auto simp: inner_rect_length)

lemma outer_rect_nth:
  assumes "m \<le> rows" "length t0 = rows * cols" "k < rows * cols"
  shows "fold (\<lambda>r t. fold (\<lambda>c t'. t'[c * rows + r := f r c]) [0..<cols] t) [0..<m] t0 ! k =
         (if k mod rows < m then f (k mod rows) (k div rows) else t0 ! k)"
  using assms(1)
proof (induction m)
  case 0 show ?case by simp
next
  case (Suc m)
  have dv: "k div rows < cols"
    using assms(3) by (simp add: less_mult_imp_div_less mult.commute)
  from Suc show ?case
    using assms(2,3) dv
    by (auto simp: inner_rect_nth outer_rect_length less_Suc_eq)
qed

lemma copy_loop: "length b = length tmp \<Longrightarrow> m \<le> length tmp \<Longrightarrow>
   fold (\<lambda>i b. b[i := tmp ! i]) [0..<m] b = take m tmp @ drop m b"
proof (induction m)
  case 0 show ?case by simp
next
  case (Suc m)
  then show ?case
    by (simp add: take_Suc_conv_app_nth list_update_append upd_conv_take_nth_drop
        Cons_nth_drop_Suc [symmetric] del: )
qed

lemma interleave_rect_eq:
  assumes "length bs = rows * cols"
  shows "interleave_rect bs rows cols = transposed rows cols bs"
proof -
  let ?tmp = "fold (\<lambda>r t. fold (\<lambda>c t'. t'[c * rows + r := bs ! (r * cols + c)]) [0..<cols] t)
                  [0..<rows] (replicate (length bs) 0)"
  have len: "length ?tmp = rows * cols"
    using assms by (simp add: outer_rect_length)
  have "?tmp = transposed rows cols bs"
  proof (rule nth_equalityI)
    show "length ?tmp = length (transposed rows cols bs)"
      using len by (simp add: transposed_def)
  next
    fix k assume "k < length ?tmp"
    then have k: "k < rows * cols" using len by simp
    then have "0 < rows" by (cases rows) auto
    then have "k mod rows < rows" by simp
    then show "?tmp ! k = transposed rows cols bs ! k"
      using k assms by (simp add: outer_rect_nth transposed_def)
  qed
  moreover have "fold (\<lambda>i b. b[i := ?tmp ! i]) [0..<length ?tmp] bs = ?tmp"
    using copy_loop [of bs ?tmp "length ?tmp"] len assms by simp
  ultimately show ?thesis
    by (simp add: interleave_rect_def Let_def)
qed


text \<open>The in-place branch: what the swaps have done after each loop.\<close>

lemma swap_bytes_length: "length (swap_bytes i j bs) = length bs"
  by (simp add: swap_bytes_def)

lemma swap_bytes_nth:
  "i < length bs \<Longrightarrow> j < length bs \<Longrightarrow> k < length bs \<Longrightarrow>
   swap_bytes i j bs ! k = (if k = j then bs ! i else if k = i then bs ! j else bs ! k)"
  by (simp add: swap_bytes_def nth_list_update)

lemma cell_index_less: "r < n \<Longrightarrow> c < n \<Longrightarrow> r * n + c < n * (n::nat)"
proof -
  assume a: "r < n" "c < n"
  then have "r * n + c < r * n + n" by simp
  also have "\<dots> = Suc r * n" by simp
  also have "\<dots> \<le> n * n" using a(1) by (metis Suc_leI mult_le_mono1)
  finally show ?thesis .
qed

lemma cell_index_eq:
  "c < n \<Longrightarrow> (k = r * n + c) = (k div n = r \<and> k mod n = (c::nat))"
  by (auto simp: div_mult_mod_eq [symmetric] simp del: div_mult_mod_eq)

lemma inner_square_length:
  "length (fold (\<lambda>c b'. swap_bytes (r * n + c) (c * n + r) b') [0..<m] b) = length b"
  by (induction m) (auto simp: swap_bytes_length)

lemma inner_square_nth:
  assumes "r < n" "length b = n * n" "k < n * n" "m \<le> r"
  shows "fold (\<lambda>c b'. swap_bytes (r * n + c) (c * n + r) b') [0..<m] b ! k =
         (if (k div n = r \<and> k mod n < m) \<or> (k mod n = r \<and> k div n < m)
          then b ! ((k mod n) * n + k div n) else b ! k)"
  using assms(4,3)
proof (induction m arbitrary: k rule: nat.induct)
  case zero
  show ?case by simp
next
  case (Suc m)
  let ?bm = "fold (\<lambda>c b'. swap_bytes (r * n + c) (c * n + r) b') [0..<m] b"
  have m: "m < r" "m < n" using Suc.prems assms(1) by auto
  have i1: "r * n + m < n * n" and i2: "m * n + r < n * n"
    using cell_index_less assms(1) m by auto
  have len: "length ?bm = n * n" by (simp add: inner_square_length assms(2))
  have e1: "(k = r * n + m) = (k div n = r \<and> k mod n = m)"
    using cell_index_eq m by blast
  have e2: "(k = m * n + r) = (k div n = m \<and> k mod n = r)"
    using cell_index_eq assms(1) by blast
  have d1: "(r * n + m) div n = r" "(r * n + m) mod n = m"
    using m by auto
  have d2: "(m * n + r) div n = m" "(m * n + r) mod n = r"
    using assms(1) by auto
  have v1: "?bm ! (r * n + m) = b ! (r * n + m)"
    using Suc.IH [of "r * n + m"] Suc.prems i1 d1 by simp
  have v2: "?bm ! (m * n + r) = b ! (m * n + r)"
    using Suc.IH [of "m * n + r"] Suc.prems m i2 d2 by simp
  have step: "fold (\<lambda>c b'. swap_bytes (r * n + c) (c * n + r) b') [0..<Suc m] b ! k =
        (if k = m * n + r then ?bm ! (r * n + m)
         else if k = r * n + m then ?bm ! (m * n + r) else ?bm ! k)"
    using swap_bytes_nth [of "r * n + m" ?bm "m * n + r" k] i1 i2 len Suc.prems
    by simp
  show ?case
    unfolding step v1 v2
    using Suc.IH [of k] Suc.prems m e1 e2
    by (auto simp: less_Suc_eq)
qed

lemma outer_square_length:
  "length (fold (\<lambda>r b. fold (\<lambda>c b'. swap_bytes (r * n + c) (c * n + r) b') [0..<r] b) [0..<m] b0)
   = length b0"
  by (induction m) (auto simp: inner_square_length)

lemma outer_square_nth:
  assumes "length b0 = n * n" "k < n * n" "m \<le> n"
  shows "fold (\<lambda>r b. fold (\<lambda>c b'. swap_bytes (r * n + c) (c * n + r) b') [0..<r] b) [0..<m] b0 ! k =
         (if k div n < m \<and> k mod n < m then b0 ! ((k mod n) * n + k div n) else b0 ! k)"
  using assms(3,2)
proof (induction m arbitrary: k rule: nat.induct)
  case zero
  show ?case by simp
next
  case (Suc m)
  let ?bm = "fold (\<lambda>r b. fold (\<lambda>c b'. swap_bytes (r * n + c) (c * n + r) b') [0..<r] b) [0..<m] b0"
  have m: "m < n" using Suc.prems by simp
  have len: "length ?bm = n * n" by (simp add: outer_square_length assms(1))
  have n: "0 < n" using m by simp
  have kd: "k div n < n" using Suc.prems(2) by (simp add: less_mult_imp_div_less)
  have km: "k mod n < n" using n by simp
  have tk: "(k mod n) * n + k div n < n * n" using cell_index_less km kd by simp
  have td: "((k mod n) * n + k div n) div n = k mod n" "((k mod n) * n + k div n) mod n = k div n"
    using kd by auto
  have diag: "k div n = k mod n \<Longrightarrow> (k mod n) * n + k div n = k"
    by (metis div_mult_mod_eq mult.commute add.commute)
  have ih1: "?bm ! k = (if k div n < m \<and> k mod n < m then b0 ! ((k mod n) * n + k div n) else b0 ! k)"
    using Suc.IH [of k] Suc.prems by simp
  have ih2: "?bm ! ((k mod n) * n + k div n) =
             (if k mod n < m \<and> k div n < m then b0 ! k else b0 ! ((k mod n) * n + k div n))"
    using Suc.IH [of "(k mod n) * n + k div n"] Suc.prems tk td
    by (simp add: mult.commute)
  have "fold (\<lambda>r b. fold (\<lambda>c b'. swap_bytes (r * n + c) (c * n + r) b') [0..<r] b) [0..<Suc m] b0 ! k
        = (if (k div n = m \<and> k mod n < m) \<or> (k mod n = m \<and> k div n < m)
           then ?bm ! ((k mod n) * n + k div n) else ?bm ! k)"
    using inner_square_nth [of m n ?bm k m] m len Suc.prems by simp
  then show ?case
    unfolding ih1 ih2 using diag
    by (auto simp: less_Suc_eq)
qed

lemma interleave_square_eq:
  assumes "length bs = n * n"
  shows "interleave_square bs n n = transposed n n bs"
proof (rule nth_equalityI)
  show "length (interleave_square bs n n) = length (transposed n n bs)"
    using assms by (simp add: interleave_square_def outer_square_length transposed_def)
next
  fix k assume "k < length (interleave_square bs n n)"
  then have k: "k < n * n"
    using assms by (simp add: interleave_square_def outer_square_length)
  then have "0 < n" by (cases n) auto
  then have "k mod n < n" by simp
  moreover have "k div n < n" using k by (simp add: less_mult_imp_div_less)
  ultimately show "interleave_square bs n n ! k = transposed n n bs ! k"
    using k assms outer_square_nth [of bs n k n]
    by (simp add: interleave_square_def transposed_def)
qed

subsection \<open>\<open>interleave\<close> as a transposition\<close>

lemma length_transposed: "length (transposed rows cols bs) = rows * cols"
  by (simp add: transposed_def)

lemma interleave_eq_transposed:
  assumes "0 < cols" "length bs = rows * cols"
  shows "interleave bs (int cols) = Ok (transposed rows cols bs)"
proof -
  have "length bs div cols = rows" using assms by simp
  moreover have "int (length bs) mod int cols = 0"
    using assms by (simp flip: of_nat_mod)
  ultimately show ?thesis
    using assms interleave_square_eq [of bs cols] interleave_rect_eq [of bs rows cols]
    by (auto simp: interleave_def Let_def)
qed

lemma transposed_transposed:
  assumes "length bs = rows * cols"
  shows "transposed cols rows (transposed rows cols bs) = bs"
proof (rule nth_equalityI)
  show "length (transposed cols rows (transposed rows cols bs)) = length bs"
    using assms by (simp add: length_transposed mult.commute)
next
  fix k assume "k < length (transposed cols rows (transposed rows cols bs))"
  then have k: "k < cols * rows" by (simp add: length_transposed)
  then have c: "0 < cols" by (cases cols) auto
  have kd: "k div cols < rows" using k by (simp add: less_mult_imp_div_less mult.commute)
  have km: "k mod cols < cols" using c by simp
  let ?j = "(k mod cols) * rows + k div cols"
  have j: "?j < rows * cols"
  proof -
    have "?j < (k mod cols) * rows + rows" using kd by simp
    also have "\<dots> = Suc (k mod cols) * rows" by simp
    also have "\<dots> \<le> cols * rows" using km by (metis Suc_leI mult_le_mono1)
    finally show ?thesis by (simp add: mult.commute)
  qed
  have jd: "?j div rows = k mod cols" and jm: "?j mod rows = k div cols"
    using kd by auto
  have "transposed cols rows (transposed rows cols bs) ! k = transposed rows cols bs ! ?j"
    using k by (simp add: transposed_def)
  also have "\<dots> = bs ! ((?j mod rows) * cols + ?j div rows)"
    using j by (simp add: transposed_def del: mod_mult_self3 div_mult_self3)
  also have "\<dots> = bs ! k"
    unfolding jd jm by simp
  finally show "transposed cols rows (transposed rows cols bs) ! k = bs ! k" .
qed

lemma deinterleave_eq_transposed:
  assumes "0 < rows" "0 < cols" "length bs = rows * cols"
  shows "deinterleave bs (int cols) = Ok (transposed cols rows bs)"
proof -
  have m: "int (length bs) mod int cols = 0"
    using assms by (simp flip: of_nat_mod)
  have d: "int (length bs) div int cols = int rows"
    using assms by (simp flip: of_nat_div)
  have "interleave bs (int rows) = Ok (transposed cols rows bs)"
    using interleave_eq_transposed [of rows bs cols] assms by (simp add: mult.commute)
  then show ?thesis
    using assms m d by (simp add: deinterleave_def)
qed

lemma deinterleave_interleave:
  assumes "0 < rows" "0 < cols" "length bs = rows * cols"
  shows "and_then (interleave bs (int cols)) (\<lambda>b. deinterleave b (int cols)) = Ok bs"
  using assms interleave_eq_transposed [of cols bs rows]
    deinterleave_eq_transposed [of rows cols "transposed rows cols bs"]
    transposed_transposed [of bs rows cols]
  by (simp add: length_transposed)


section \<open>Byte order and zigzag round trips\<close>

lemma bit_byte_piece:
  "bit (push_bit s (ucast (ucast (drop_bit s (v::'a::len word)) :: byte)) :: 'a word) k
   = (s \<le> k \<and> k < s + 8 \<and> bit v k)"
proof (cases "s \<le> k")
  case True
  then have "s + (k - s) = k" by simp
  then show ?thesis
    using True by (auto simp: bit_push_bit_iff bit_ucast_iff bit_drop_bit_eq possible_bit_word
        dest: bit_imp_le_length)
next
  case False
  then show ?thesis by (simp add: bit_push_bit_iff)
qed

lemma bit_low_byte:
  "bit (ucast (ucast (v::'a::len word) :: byte) :: 'a word) k = (k < 8 \<and> bit v k)"
  by (auto simp: bit_ucast_iff dest: bit_imp_le_length)

lemma BigEndian_Uint32_Put [simp]:
  "BigEndian_Uint32 (ucast (drop_bit 24 v) # ucast (drop_bit 16 v) # ucast (drop_bit 8 v) # ucast v # rest) = v"
proof (rule bit_word_eqI)
  fix k assume "k < LENGTH(32)"
  then have "k < 32" by simp
  then show "bit (BigEndian_Uint32 (ucast (drop_bit 24 v) # ucast (drop_bit 16 v) #
      ucast (drop_bit 8 v) # ucast v # rest)) k = bit v k"
    unfolding BigEndian_Uint32_def
    by (simp only: nth_Cons_0 nth_Cons_numeral nth_Cons_Suc One_nat_def numeral_2_eq_2 numeral_3_eq_3
        bit_or_iff bit_byte_piece bit_low_byte) (simp, linarith)
qed

lemma LittleEndian_Uint32_Put [simp]:
  "LittleEndian_Uint32 (ucast v # ucast (drop_bit 8 v) # ucast (drop_bit 16 v) # ucast (drop_bit 24 v) # rest) = v"
proof (rule bit_word_eqI)
  fix k assume "k < LENGTH(32)"
  then have "k < 32" by simp
  then show "bit (LittleEndian_Uint32 (ucast v # ucast (drop_bit 8 v) # ucast (drop_bit 16 v) #
      ucast (drop_bit 24 v) # rest)) k = bit v k"
    unfolding LittleEndian_Uint32_def
    by (simp only: nth_Cons_0 nth_Cons_numeral nth_Cons_Suc One_nat_def numeral_2_eq_2 numeral_3_eq_3
        bit_or_iff bit_byte_piece bit_low_byte) (simp, linarith)
qed


lemma LittleEndian_Uint16_Put [simp]:
  "LittleEndian_Uint16 (ucast v # ucast (drop_bit 8 v) # rest) = v"
proof (rule bit_word_eqI)
  fix k assume "k < LENGTH(16)"
  then have "k < 16" by simp
  then show "bit (LittleEndian_Uint16 (ucast v # ucast (drop_bit 8 v) # rest)) k = bit v k"
    unfolding LittleEndian_Uint16_def
    by (simp only: nth_Cons_0 nth_Cons_numeral nth_Cons_Suc One_nat_def
        bit_or_iff bit_byte_piece bit_low_byte) (simp, linarith)
qed

lemma BigEndian_Uint64_Cons:
  "BigEndian_Uint64 (b0 # b1 # b2 # b3 # b4 # b5 # b6 # b7 # rest) =
     push_bit 56 (ucast b0) OR push_bit 48 (ucast b1) OR push_bit 40 (ucast b2) OR
     push_bit 32 (ucast b3) OR push_bit 24 (ucast b4) OR push_bit 16 (ucast b5) OR
     push_bit 8 (ucast b6) OR ucast b7"
  by (simp add: BigEndian_Uint64_def)

lemma LittleEndian_Uint64_Cons:
  "LittleEndian_Uint64 (b0 # b1 # b2 # b3 # b4 # b5 # b6 # b7 # rest) =
     ucast b0 OR push_bit 8 (ucast b1) OR push_bit 16 (ucast b2) OR push_bit 24 (ucast b3) OR
     push_bit 32 (ucast b4) OR push_bit 40 (ucast b5) OR push_bit 48 (ucast b6) OR
     push_bit 56 (ucast b7)"
  by (simp add: LittleEndian_Uint64_def)

lemma BigEndian_Uint64_Put [simp]:
  "BigEndian_Uint64 (ucast (drop_bit 56 v) # ucast (drop_bit 48 v) # ucast (drop_bit 40 v) #
      ucast (drop_bit 32 v) # ucast (drop_bit 24 v) # ucast (drop_bit 16 v) #
      ucast (drop_bit 8 v) # ucast v # rest) = v"
proof (rule bit_word_eqI)
  fix k assume "k < LENGTH(64)"
  then have "k < 64" by simp
  then show "bit (BigEndian_Uint64 (ucast (drop_bit 56 v) # ucast (drop_bit 48 v) #
      ucast (drop_bit 40 v) # ucast (drop_bit 32 v) # ucast (drop_bit 24 v) #
      ucast (drop_bit 16 v) # ucast (drop_bit 8 v) # ucast v # rest)) k = bit v k"
    unfolding BigEndian_Uint64_Cons
    by (simp only: bit_or_iff bit_byte_piece bit_low_byte) (simp, linarith)
qed

lemma LittleEndian_Uint64_Put [simp]:
  "LittleEndian_Uint64 (ucast v # ucast (drop_bit 8 v) # ucast (drop_bit 16 v) #
      ucast (drop_bit 24 v) # ucast (drop_bit 32 v) # ucast (drop_bit 40 v) #
      ucast (drop_bit 48 v) # ucast (drop_bit 56 v) # rest) = v"
proof (rule bit_word_eqI)
  fix k assume "k < LENGTH(64)"
  then have "k < 64" by simp
  then show "bit (LittleEndian_Uint64 (ucast v # ucast (drop_bit 8 v) # ucast (drop_bit 16 v) #
      ucast (drop_bit 24 v) # ucast (drop_bit 32 v) # ucast (drop_bit 40 v) #
      ucast (drop_bit 48 v) # ucast (drop_bit 56 v) # rest)) k = bit v k"
    unfolding LittleEndian_Uint64_Cons
    by (simp only: bit_or_iff bit_byte_piece bit_low_byte) (simp, linarith)
qed

lemma bit_sar63: "k < 64 \<Longrightarrow> bit (signed_drop_bit 63 (x::64 word)) k = bit x 63"
  by (cases "k = 0") (auto simp: bit_signed_drop_bit_iff dest: bit_imp_le_length)

lemma bit_shl63_and1: "bit (push_bit 63 ((u::64 word) AND 1)) 63 = bit u 0"
  unfolding bit_push_bit_iff bit_and_iff bit_1_iff by (simp add: possible_bit_word)

lemma decodeZigzag64_encodeZigzag64 [simp]: "decodeZigzag64 (encodeZigzag64 n) = n"
proof (rule bit_word_eqI)
  fix k assume "k < LENGTH(64)"
  then have k: "k < 64" by simp
  have b0: "bit (encodeZigzag64 n) 0 = bit n 63"
    unfolding encodeZigzag64_def by (simp add: bit_xor_iff bit_shl1 bit_signed_drop_bit_iff)
  have bk: "bit (encodeZigzag64 n) (Suc j) = (bit n j \<noteq> bit n 63)" if "j < 63" for j
    unfolding encodeZigzag64_def using that
    by (auto simp add: bit_xor_iff bit_shl1 bit_signed_drop_bit_iff)
  have m: "bit (signed_drop_bit 63 (push_bit 63 (u AND 1))) k = bit u 0" for u :: "64 word"
    using k bit_sar63 [of k "push_bit 63 (u AND 1)"] bit_shl63_and1 [of u] by simp
  have d: "bit (decodeZigzag64 u) k = (bit (drop_bit 1 u) k \<noteq> bit u 0)" for u
    unfolding decodeZigzag64_def bit_xor_iff m by simp
  show "bit (decodeZigzag64 (encodeZigzag64 n)) k = bit n k"
  proof (cases "k < 63")
    case True
    then show ?thesis
      unfolding d by (auto simp add: bit_drop_bit_eq b0 bk)
  next
    case False
    with k have "k = 63" by simp
    then show ?thesis
      unfolding d by (auto simp add: bit_drop_bit_eq b0 dest: bit_imp_le_length)
  qed
qed


section \<open>Single values\<close>

lemmas PutUint_defs =
  BigEndian_PutUint32_def BigEndian_PutUint64_def LittleEndian_PutUint16_def
  LittleEndian_PutUint32_def LittleEndian_PutUint64_def

lemmas scalar_Bytes_defs =
  ValueBool_Bytes_def ValueInt_Bytes_def ValueFloat_Bytes_def
  ValueDouble_Bytes_def ValueBrickColor_Bytes_def ValueToken_Bytes_def
  ValueReference_Bytes_def ValueInt64_Bytes_def ValueSharedString_Bytes_def

lemmas scalar_FromBytes_defs =
  ValueBool_FromBytes_def ValueInt_FromBytes_def ValueFloat_FromBytes_def
  ValueDouble_FromBytes_def ValueBrickColor_FromBytes_def ValueToken_FromBytes_def
  ValueReference_FromBytes_def ValueInt64_FromBytes_def ValueSharedString_FromBytes_def

lemma ValueFloat_FromBytes_Bytes [simp]:
  "ValueFloat_FromBytes (ValueFloat_Bytes v) = Ok v"
  by (simp add: ValueFloat_FromBytes_def ValueFloat_Bytes_def BigEndian_PutUint32_def
      decodeRobloxFloat_encodeRobloxFloat)

lemma ValueInt_FromBytes_Bytes [simp]:
  "ValueInt_FromBytes (ValueInt_Bytes v) = Ok v"
  by (simp add: ValueInt_FromBytes_def ValueInt_Bytes_def BigEndian_PutUint32_def
      decodeZigzag32_encodeZigzag32)

lemma ValueReference_FromBytes_Bytes [simp]:
  "ValueReference_FromBytes (ValueReference_Bytes v) = Ok v"
  by (simp add: ValueReference_FromBytes_def ValueReference_Bytes_def BigEndian_PutUint32_def
      decodeZigzag32_encodeZigzag32)

lemma length_ValueFloat_Bytes [simp]: "length (ValueFloat_Bytes v) = 4"
  by (simp add: ValueFloat_Bytes_def BigEndian_PutUint32_def)

lemma length_ValueInt_Bytes [simp]: "length (ValueInt_Bytes v) = 4"
  by (simp add: ValueInt_Bytes_def BigEndian_PutUint32_def)

lemma length_ValueReference_Bytes [simp]: "length (ValueReference_Bytes v) = 4"
  by (simp add: ValueReference_Bytes_def BigEndian_PutUint32_def)

text \<open>Slices of a concatenation of four-byte pieces.\<close>

lemma slice_0 [simp]: "length a = n \<Longrightarrow> slice (a @ r) 0 n = a"
  by (simp add: slice_def)

lemma slice_append_skip:
  "length a \<le> i \<Longrightarrow> slice (a @ r) i j = slice r (i - length a) (j - length a)"
  by (simp add: slice_def)

lemma slice_whole [simp]: "length a = n \<Longrightarrow> slice a 0 n = a"
  by (simp add: slice_def)

lemma FromBytes_Bytes_scalars:
  "FromBytes (VBool z1) (Bytes (VBool v1)) = Ok (VBool v1)"
  "FromBytes (VInt z2) (Bytes (VInt v2)) = Ok (VInt v2)"
  "FromBytes (VFloat z3) (Bytes (VFloat v3)) = Ok (VFloat v3)"
  "FromBytes (VDouble z4) (Bytes (VDouble v4)) = Ok (VDouble v4)"
  "FromBytes (VBrickColor z5) (Bytes (VBrickColor v5)) = Ok (VBrickColor v5)"
  "FromBytes (VToken z6) (Bytes (VToken v6)) = Ok (VToken v6)"
  "FromBytes (VReference z7) (Bytes (VReference v7)) = Ok (VReference v7)"
  "FromBytes (VInt64 z8) (Bytes (VInt64 v8)) = Ok (VInt64 v8)"
  "FromBytes (VSharedString z9) (Bytes (VSharedString v9)) = Ok (VSharedString v9)"
  by (simp_all add: scalar_Bytes_defs scalar_FromBytes_defs PutUint_defs
      decodeZigzag32_encodeZigzag32 decodeRobloxFloat_encodeRobloxFloat)

lemma FromBytes_Bytes_String:
  "FromBytes (VString z) (Bytes (VString v)) = Ok (VString v)"
  by (simp add: ValueString_Bytes_def ValueString_FromBytes_def LittleEndian_PutUint32_def
      slice_def Let_def)

lemma FromBytes_Bytes_float_structs:
  "FromBytes (VUDim z1) (Bytes (VUDim v1)) = Ok (VUDim v1)"
  "FromBytes (VUDim2 z2) (Bytes (VUDim2 v2)) = Ok (VUDim2 v2)"
  "FromBytes (VColor3 z3) (Bytes (VColor3 v3)) = Ok (VColor3 v3)"
  "FromBytes (VVector2 z4) (Bytes (VVector2 v4)) = Ok (VVector2 v4)"
  "FromBytes (VVector3 z5) (Bytes (VVector3 v5)) = Ok (VVector3 v5)"
  subgoal by (cases z1; cases v1) (simp add: slice_append_skip)
  subgoal by (cases z2; cases v2) (simp add: slice_append_skip)
  subgoal by (cases z3; cases v3) (simp add: slice_append_skip)
  subgoal by (cases z4; cases v4) (simp add: slice_append_skip)
  subgoal by (cases z5; cases v5) (simp add: slice_append_skip)
  done

lemma FromBytes_Bytes_raw_structs:
  "FromBytes (VRay z1) (Bytes (VRay v1)) = Ok (VRay v1)"
  "FromBytes (VVector2int16 z2) (Bytes (VVector2int16 v2)) = Ok (VVector2int16 v2)"
  "FromBytes (VVector3int16 z3) (Bytes (VVector3int16 v3)) = Ok (VVector3int16 v3)"
  "FromBytes (VNumberRange z4) (Bytes (VNumberRange v4)) = Ok (VNumberRange v4)"
  "FromBytes (VColor3uint8 z5) (Bytes (VColor3uint8 v5)) = Ok (VColor3uint8 v5)"
  subgoal by (cases v1) (simp add: ValueRay_FromBytes_def PutUint_defs slice_def)
  subgoal by (cases v2) (simp add: ValueVector2int16_FromBytes_def PutUint_defs slice_def)
  subgoal by (cases v3) (simp add: ValueVector3int16_FromBytes_def PutUint_defs slice_def)
  subgoal by (cases v4) (simp add: ValueNumberRange_FromBytes_def PutUint_defs slice_def)
  subgoal by (cases v5) (simp add: ValueColor3uint8_FromBytes_def)
  done

lemma length_ValueVector2_Bytes [simp]: "length (ValueVector2_Bytes v) = 8"
  by (cases v) simp

lemma length_ValueVector3_Bytes [simp]: "length (ValueVector3_Bytes v) = 12"
  by (cases v) simp

lemma ValueVector2_FromBytes_Bytes [simp]:
  "ValueVector2_FromBytes z (ValueVector2_Bytes v) = Ok v"
  by (cases z; cases v) (simp add: slice_append_skip)

lemma ValueVector3_FromBytes_Bytes [simp]:
  "ValueVector3_FromBytes z (ValueVector3_Bytes v) = Ok v"
  by (cases z; cases v) (simp add: slice_append_skip)

lemma FromBytes_Bytes_Rect2D:
  "FromBytes (VRect2D z) (Bytes (VRect2D v)) = Ok (VRect2D v)"
  by (cases z; cases v) (simp add: slice_append_skip)

lemma flags_byte_6:
  "flags_byte [r, t, bk, l, bt, f] =
     (if r then 1 else 0) OR (if t then 2 else 0) OR (if bk then 4 else 0) OR
     (if l then 8 else 0) OR (if bt then 16 else 0) OR (if f then 32 else 0)"
  by (simp add: flags_byte_def upt_rec)

lemma flags_byte_3:
  "flags_byte [x, y, z] =
     (if x then 1 else 0) OR (if y then 2 else 0) OR (if z then 4 else 0)"
  by (simp add: flags_byte_def upt_rec)

lemma FromBytes_Bytes_flags:
  "FromBytes (VFaces z1) (Bytes (VFaces v1)) = Ok (VFaces v1)"
  "FromBytes (VAxes z2) (Bytes (VAxes v2)) = Ok (VAxes v2)"
  subgoal
  proof (cases v1)
    case (ValueFaces r t bk l bt f)
    show ?thesis
      unfolding ValueFaces
      by (cases r; cases t; cases bk; cases l; cases bt; cases f)
         (simp_all add: ValueFaces_FromBytes_def flags_byte_6)
  qed
  subgoal
  proof (cases v2)
    case (ValueAxes x y z)
    show ?thesis
      unfolding ValueAxes
      by (cases x; cases y; cases z) (simp_all add: ValueAxes_FromBytes_def flags_byte_3)
  qed
  done

text \<open>A concatenation of pieces of one length, piece by piece.\<close>

lemma length_concat_fixed:
  "list_all (\<lambda>x. length (g x) = k) xs \<Longrightarrow> length (concat (map g xs)) = length xs * k"
  by (induction xs) auto

lemma drop_concat_fixed:
  "list_all (\<lambda>x. length (g x) = k) xs \<Longrightarrow> i < length xs \<Longrightarrow>
   drop (i * k) (concat (map g xs)) = g (xs ! i) @ concat (map g (drop (Suc i) xs))"
proof (induction xs arbitrary: i)
  case Nil
  then show ?case by simp
next
  case (Cons x xs)
  show ?case
  proof (cases i)
    case 0
    then show ?thesis by simp
  next
    case (Suc j)
    have "drop (k + j * k) (g x @ concat (map g xs)) = drop (j * k) (concat (map g xs))"
      using Cons.prems(1) by simp
    then show ?thesis
      using Cons Suc by simp
  qed
qed

lemma slice_concat_fixed:
  "list_all (\<lambda>x. length (g x) = k) xs \<Longrightarrow> i < length xs \<Longrightarrow>
   slice (concat (map g xs)) (i * k) (i * k + k) = g (xs ! i)"
proof -
  assume a: "list_all (\<lambda>x. length (g x) = k) xs" "i < length xs"
  then have "length (g (xs ! i)) = k"
    by (simp add: list_all_length)
  then show ?thesis
    using drop_concat_fixed [OF a] by (simp add: slice_def)
qed

lemma unat_of_nat_32: "n < 2 ^ 32 \<Longrightarrow> unat (of_nat n :: 32 word) = n"
  by (simp add: unat_of_nat)

lemma length_keypoint_bytes_NSK [simp]: "length (keypoint_bytes_NSK k) = 12"
  by (cases k) (simp add: PutUint_defs)

lemma length_keypoint_bytes_CSK [simp]: "length (keypoint_bytes_CSK k) = 20"
proof (cases k)
  case (ValueColorSequenceKeypoint t c e)
  then show ?thesis by (cases c) (simp add: PutUint_defs)
qed

lemma FromBytes_Bytes_NumberSequence:
  assumes "length v < 2 ^ 32"
  shows "FromBytes (VNumberSequence z) (Bytes (VNumberSequence v)) = Ok (VNumberSequence v)"
proof -
  let ?ba = "concat (map keypoint_bytes_NSK v)"
  have all: "list_all (\<lambda>x. length (keypoint_bytes_NSK x) = 12) v"
    by (simp add: list_all_iff)
  have len: "length ?ba = length v * 12"
    using all by (rule length_concat_fixed)
  have item: "(let bk = drop (i * 12) ?ba
               in ValueNumberSequenceKeypoint (LittleEndian_Uint32 (slice bk 0 4))
                    (LittleEndian_Uint32 (slice bk 4 8)) (LittleEndian_Uint32 (slice bk 8 12)))
              = v ! i" if "i < length v" for i
    unfolding drop_concat_fixed [OF all that]
    by (cases "v ! i") (simp add: PutUint_defs slice_def)
  have "map (\<lambda>i. let bk = drop (i * 12) ?ba
               in ValueNumberSequenceKeypoint (LittleEndian_Uint32 (slice bk 0 4))
                    (LittleEndian_Uint32 (slice bk 4 8)) (LittleEndian_Uint32 (slice bk 8 12)))
          [0..<length v] = map (\<lambda>i. v ! i) [0..<length v]"
    by (rule map_cong) (simp_all add: item)
  then show ?thesis
    using assms len
    by (simp add: ValueNumberSequence_Bytes_def ValueNumberSequence_FromBytes_def
        LittleEndian_PutUint32_def unat_of_nat_32 map_nth)
qed

lemma FromBytes_Bytes_ColorSequence:
  assumes "length v < 2 ^ 32"
  shows "FromBytes (VColorSequence z) (Bytes (VColorSequence v)) = Ok (VColorSequence v)"
proof -
  let ?ba = "concat (map keypoint_bytes_CSK v)"
  have all: "list_all (\<lambda>x. length (keypoint_bytes_CSK x) = 20) v"
    by (simp add: list_all_iff)
  have len: "length ?ba = length v * 20"
    using all by (rule length_concat_fixed)
  have item: "(let bk = drop (i * 20) ?ba
               in ValueColorSequenceKeypoint (LittleEndian_Uint32 (slice bk 0 4))
                    (ValueColor3 (LittleEndian_Uint32 (slice bk 4 8))
                       (LittleEndian_Uint32 (slice bk 8 12)) (LittleEndian_Uint32 (slice bk 12 16)))
                    (LittleEndian_Uint32 (slice bk 16 20)))
              = v ! i" if "i < length v" for i
  proof (cases "v ! i")
    case (ValueColorSequenceKeypoint t c e)
    show ?thesis
      unfolding drop_concat_fixed [OF all that] ValueColorSequenceKeypoint
      by (cases c) (simp add: PutUint_defs slice_def)
  qed
  have "map (\<lambda>i. let bk = drop (i * 20) ?ba
               in ValueColorSequenceKeypoint (LittleEndian_Uint32 (slice bk 0 4))
                    (ValueColor3 (LittleEndian_Uint32 (slice bk 4 8))
                       (LittleEndian_Uint32 (slice bk 8 12)) (LittleEndian_Uint32 (slice bk 12 16)))
                    (LittleEndian_Uint32 (slice bk 16 20)))
          [0..<length v] = map (\<lambda>i. v ! i) [0..<length v]"
    by (rule map_cong) (simp_all add: item)
  then show ?thesis
    using assms len
    by (simp add: ValueColorSequence_Bytes_def ValueColorSequence_FromBytes_def
        LittleEndian_PutUint32_def unat_of_nat_32 map_nth)
qed

lemma rotation_from_rotation_bytes [simp]:
  "rotation_from (rotation_bytes r @ rest) = r"
  by (cases r) (simp add: rotation_from_def PutUint_defs slice_def)

lemma length_rotation_bytes [simp]: "length (rotation_bytes r) = 36"
  by (cases r) (simp add: PutUint_defs)

lemma FromBytes_Bytes_CFrame:
  "FromBytes (VCFrame z) (Bytes (VCFrame v)) = Ok (normalized (VCFrame v))"
proof (cases v)
  case (ValueCFrame special rotation position)
  show ?thesis
    unfolding ValueCFrame
    by (cases z) (simp add: slice_def)
qed

text \<open>
  Every value but a \<open>PhysicalProperties\<close> comes back from its bytes, whatever
  value of its type receives them.
\<close>

lemmas FromBytes_Bytes_kinds =
  FromBytes_Bytes_scalars FromBytes_Bytes_String FromBytes_Bytes_float_structs
  FromBytes_Bytes_raw_structs FromBytes_Bytes_Rect2D FromBytes_Bytes_flags
  FromBytes_Bytes_NumberSequence FromBytes_Bytes_ColorSequence FromBytes_Bytes_CFrame

lemma FromBytes_Bytes:
  assumes "Type_of z = Type_of v" "length_fits v" "Type_of v \<noteq> TypePhysicalProperties"
  shows "FromBytes z (Bytes v) = Ok (normalized v)"
proof (cases v)
  case (VCFrame cf)
  then show ?thesis
    using assms FromBytes_Bytes_CFrame [of _ cf] by (cases z) simp_all
qed (use assms in \<open>cases z; simp_all only: Type_of.simps length_fits.simps normalized.simps
      FromBytes_Bytes_kinds; simp\<close>)+


section \<open>Arrays: concatenation\<close>

declare appendByteValues_fixed.simps [simp del]
declare appendByteValues_variable.simps [simp del]
declare cframe_matrices.simps [simp del]

lemma check_types_None:
  "list_all (\<lambda>v. Type_of v = t) xs \<Longrightarrow> check_types t i xs = None"
  by (induction xs arbitrary: i) auto

lemma appendValueBytes_from_Ok:
  "list_all (\<lambda>v. Type_of v = t) xs \<Longrightarrow>
   appendValueBytes_from t i xs acc = Ok (acc @ concat (map Bytes xs))"
  by (induction xs arbitrary: i acc) auto

lemma appendValueBytes_Ok:
  "list_all (\<lambda>v. Type_of v = t) xs \<Longrightarrow> appendValueBytes t xs = Ok (concat (map Bytes xs))"
  by (simp add: appendValueBytes_def appendValueBytes_from_Ok)

lemma appendByteValues_fixed_concat:
  assumes "0 < sz"
    and "list_all (\<lambda>v. length (Bytes v) = sz \<and> FromBytes zero (Bytes v) = Ok (f v)) xs"
  shows "appendByteValues_fixed (Some zero) sz (concat (map Bytes xs)) = Ok (map f xs)"
  using assms(2)
proof (induction xs)
  case Nil
  show ?case
    using assms(1) by (subst appendByteValues_fixed.simps) simp
next
  case (Cons x xs)
  then show ?case
    using assms(1) by (subst appendByteValues_fixed.simps) simp
qed

lemma appendByteValues_variable_concat:
  assumes "\<And>v. v \<in> set xs \<Longrightarrow>
      \<exists>n payload. Bytes v = LittleEndian_PutUint32 (of_nat n) @ payload \<and> n < 2 ^ 32
        \<and> length payload = n * field"
    and "\<And>v. v \<in> set xs \<Longrightarrow> FromBytes zero (Bytes v) = Ok (f v)"
  shows "appendByteValues_variable (Some zero) field (concat (map Bytes xs)) = Ok (map f xs)"
  using assms
proof (induction xs)
  case Nil
  show ?case
    by (subst appendByteValues_variable.simps) simp
next
  case (Cons x xs)
  obtain n payload where b: "Bytes x = LittleEndian_PutUint32 (of_nat n) @ payload"
    and n: "n < 2 ^ 32" and p: "length payload = n * field"
    using Cons.prems(1) [of x] by auto
  let ?rest = "concat (map Bytes xs)"
  have sz: "unat (LittleEndian_Uint32 (Bytes x @ ?rest)) = n"
    using n by (simp add: b LittleEndian_PutUint32_def unat_of_nat_32)
  have len: "length (Bytes x) = 4 + n * field"
    using p by (simp add: b LittleEndian_PutUint32_def)
  have ih: "appendByteValues_variable (Some zero) field ?rest = Ok (map f xs)"
    using Cons by simp
  have fb: "FromBytes zero (Bytes x) = Ok (f x)"
    using Cons.prems(2) by simp
  show ?case
    using sz len ih fb
    by (subst appendByteValues_variable.simps) (simp add: Let_def)
qed

lemma length_Bytes_fixed:
  "Type_of v = TypeBool \<Longrightarrow> length (Bytes v) = 1"
  "Type_of v = TypeFaces \<Longrightarrow> length (Bytes v) = 1"
  "Type_of v = TypeAxes \<Longrightarrow> length (Bytes v) = 1"
  "Type_of v = TypeVector3int16 \<Longrightarrow> length (Bytes v) = 6"
  "Type_of v = TypeDouble \<Longrightarrow> length (Bytes v) = 8"
  "Type_of v = TypeNumberRange \<Longrightarrow> length (Bytes v) = 8"
  "Type_of v = TypeRay \<Longrightarrow> length (Bytes v) = 24"
  "Type_of v = TypeInt \<Longrightarrow> length (Bytes v) = 4"
  "Type_of v = TypeFloat \<Longrightarrow> length (Bytes v) = 4"
  "Type_of v = TypeBrickColor \<Longrightarrow> length (Bytes v) = 4"
  "Type_of v = TypeToken \<Longrightarrow> length (Bytes v) = 4"
  "Type_of v = TypeSharedString \<Longrightarrow> length (Bytes v) = 4"
  "Type_of v = TypeInt64 \<Longrightarrow> length (Bytes v) = 8"
  subgoal by (cases v) (simp_all add: ValueBool_Bytes_def)
  subgoal premises p
  proof (cases v)
    case (VFaces x) then show ?thesis by (cases x) simp
  qed (use p in simp_all)
  subgoal premises p
  proof (cases v)
    case (VAxes x) then show ?thesis by (cases x) simp
  qed (use p in simp_all)
  subgoal premises p
  proof (cases v)
    case (VVector3int16 x) then show ?thesis by (cases x) (simp add: PutUint_defs)
  qed (use p in simp_all)
  subgoal by (cases v) (simp_all add: scalar_Bytes_defs PutUint_defs)
  subgoal premises p
  proof (cases v)
    case (VNumberRange x) then show ?thesis by (cases x) (simp add: PutUint_defs)
  qed (use p in simp_all)
  subgoal premises p
  proof (cases v)
    case (VRay x) then show ?thesis by (cases x) (simp add: PutUint_defs)
  qed (use p in simp_all)
  subgoal by (cases v) (simp_all add: scalar_Bytes_defs PutUint_defs)
  subgoal by (cases v) (simp_all add: scalar_Bytes_defs PutUint_defs)
  subgoal by (cases v) (simp_all add: scalar_Bytes_defs PutUint_defs)
  subgoal by (cases v) (simp_all add: scalar_Bytes_defs PutUint_defs)
  subgoal by (cases v) (simp_all add: scalar_Bytes_defs PutUint_defs)
  subgoal by (cases v) (simp_all add: scalar_Bytes_defs PutUint_defs)
  done

text \<open>A value of a plain kind, read back by the zero value of its type.\<close>

lemma newValue_Type_of:
  "newValue t = Some z \<Longrightarrow> Type_of z = t"
  by (auto simp: newValue_def split: if_splits)

lemma nat_less_29_cases:
  "n < 29 \<Longrightarrow> n \<in> {0, 1, 2, 3, 4, 5, 6, 7, 8, 9, 10, 11, 12, 13, 14, 15, 16, 17, 18, 19, 20, 21,
      22, 23, 24, 25, 26, 27, 28::nat}"
  by (simp, arith)

lemma Valid_cases:
  assumes "Valid t"
  shows "t \<in> {1, 2, 3, 4, 5, 6, 7, 8, 9, 10, 11, 12, 13, 14, 15, 16, 18, 19, 20, 21,
      22, 23, 24, 25, 26, 27, 28}"
proof -
  have le: "unat t \<le> 28"
    using assms by (simp add: Valid_def word_le_nat_alt)
  have ne: "t \<noteq> 0" "t \<noteq> 17"
    using assms by (auto simp: Valid_def)
  have "t = of_nat (unat t)" by simp
  moreover have "unat t \<in> {0, 1, 2, 3, 4, 5, 6, 7, 8, 9, 10, 11, 12, 13, 14, 15, 16, 17, 18, 19,
      20, 21, 22, 23, 24, 25, 26, 27, 28::nat}"
    using le by (intro nat_less_29_cases) simp
  ultimately have "t \<in> of_nat ` {0, 1, 2, 3, 4, 5, 6, 7, 8, 9, 10, 11, 12, 13, 14, 15, 16, 17,
      18, 19, 20, 21, 22, 23, 24, 25, 26, 27, 28::nat}"
    by (metis imageI)
  then show ?thesis
    using ne by (simp del: of_nat_unat)
qed

subsection \<open>The kinds that are concatenated\<close>

lemma fixed_kind:
  assumes "newValue t = Some zero" "0 < sz" "t \<noteq> TypePhysicalProperties" "t \<noteq> TypeCFrame"
    and "\<And>v. Type_of v = t \<Longrightarrow> length (Bytes v) = sz"
    and "list_all (\<lambda>v. Type_of v = t) xs"
    and "t \<notin> {TypeString, TypeNumberSequence, TypeColorSequence}"
  shows "appendByteValues t (concat (map Bytes xs)) (int sz) 0 = Ok xs"
proof -
  have z: "Type_of zero = t"
    using assms(1) by (rule newValue_Type_of)
  have fits: "length_fits v" if "Type_of v = t" for v
    using that assms(7) by (cases v) auto
  have same: "normalized v = v" if "Type_of v = t" for v
    using that assms(3,4) by (cases v) auto
  have "list_all (\<lambda>v. length (Bytes v) = sz \<and> FromBytes zero (Bytes v) = Ok (id v)) xs"
    using assms(6)
  proof (rule list.pred_mono_strong)
    fix v assume "Type_of v = t"
    then show "length (Bytes v) = sz \<and> FromBytes zero (Bytes v) = Ok (id v)"
      using assms(3,5) z fits same FromBytes_Bytes [of zero v] by simp
  qed
  then show ?thesis
    using assms(1,2) appendByteValues_fixed_concat [of sz zero id xs]
    by (simp add: appendByteValues_def)
qed

lemmas ValuesToBytes_unfold =
  ValuesToBytes_def Valid_def check_types_None appendValueBytes_Ok

lemmas ValuesFromBytes_unfold =
  ValuesFromBytes_def ValuesFromBytes_buf_def Valid_def

lemma concatenated_fixed:
  assumes "t \<in> {TypeBool, TypeFaces, TypeAxes, TypeVector3int16, TypeDouble, TypeNumberRange,
      TypeRay}"
    and "list_all (\<lambda>v. Type_of v = t) xs"
  shows "ValuesToBytes t xs = Ok (concat (map Bytes xs))"
    and "ValuesFromBytes t (concat (map Bytes xs)) = Ok xs"
proof -
  show "ValuesToBytes t xs = Ok (concat (map Bytes xs))"
    using assms by (auto simp: ValuesToBytes_unfold)
  consider "t = TypeBool" | "t = TypeFaces" | "t = TypeAxes" | "t = TypeVector3int16"
    | "t = TypeDouble" | "t = TypeNumberRange" | "t = TypeRay"
    using assms(1) by auto
  then show "ValuesFromBytes t (concat (map Bytes xs)) = Ok xs"
  proof cases
    case 1
    then show ?thesis
      using assms(2) fixed_kind [of t _ 1 xs]
      by (simp add: ValuesFromBytes_unfold newValue_def length_Bytes_fixed)
  next
    case 2
    then show ?thesis
      using assms(2) fixed_kind [of t _ 1 xs]
      by (simp add: ValuesFromBytes_unfold newValue_def length_Bytes_fixed)
  next
    case 3
    then show ?thesis
      using assms(2) fixed_kind [of t _ 1 xs]
      by (simp add: ValuesFromBytes_unfold newValue_def length_Bytes_fixed)
  next
    case 4
    then show ?thesis
      using assms(2) fixed_kind [of t _ 6 xs]
      by (simp add: ValuesFromBytes_unfold newValue_def length_Bytes_fixed)
  next
    case 5
    then show ?thesis
      using assms(2) fixed_kind [of t _ 8 xs]
      by (simp add: ValuesFromBytes_unfold newValue_def length_Bytes_fixed)
  next
    case 6
    then show ?thesis
      using assms(2) fixed_kind [of t _ 8 xs]
      by (simp add: ValuesFromBytes_unfold newValue_def length_Bytes_fixed)
  next
    case 7
    then show ?thesis
      using assms(2) fixed_kind [of t _ 24 xs]
      by (simp add: ValuesFromBytes_unfold newValue_def length_Bytes_fixed)
  qed
qed

subsection \<open>The kinds that are concatenated and interleaved\<close>

lemma transposed_Nil [simp]: "transposed 0 cols [] = []"
  by (simp add: transposed_def)

lemma interleaved_scalars:
  assumes "t \<in> {TypeInt, TypeFloat, TypeBrickColor, TypeToken, TypeSharedString} \<and> sz = 4
      \<or> t = TypeInt64 \<and> sz = 8"
    and "list_all (\<lambda>v. Type_of v = t) xs"
  shows "ValuesToBytes t xs = Ok (transposed (length xs) sz (concat (map Bytes xs)))"
    and "xs \<noteq> [] \<Longrightarrow>
         ValuesFromBytes t (transposed (length xs) sz (concat (map Bytes xs))) = Ok xs"
proof -
  let ?b = "concat (map Bytes xs)"
  have sz: "0 < sz" using assms(1) by auto
  have "list_all (\<lambda>v. length (Bytes v) = sz) xs"
    using assms(2)
  proof (rule list.pred_mono_strong)
    fix v assume "Type_of v = t"
    then show "length (Bytes v) = sz"
      using assms(1) by (auto simp: length_Bytes_fixed)
  qed
  then have len: "length ?b = length xs * sz"
    by (rule length_concat_fixed)
  have il: "interleave ?b (int sz) = Ok (transposed (length xs) sz ?b)"
    using sz len by (rule interleave_eq_transposed)
  show "ValuesToBytes t xs = Ok (transposed (length xs) sz ?b)"
    using assms il by (auto simp: ValuesToBytes_unfold)
  assume "xs \<noteq> []"
  then have n: "0 < length xs" by simp
  have dl: "deinterleave (transposed (length xs) sz ?b) (int sz) = Ok ?b"
    using deinterleave_eq_transposed [of "length xs" sz "transposed (length xs) sz ?b"]
      transposed_transposed [of ?b "length xs" sz] n sz len
    by (simp add: length_transposed)
  consider "t = TypeInt" "sz = 4" | "t = TypeFloat" "sz = 4" | "t = TypeBrickColor" "sz = 4"
    | "t = TypeToken" "sz = 4" | "t = TypeSharedString" "sz = 4" | "t = TypeInt64" "sz = 8"
    using assms(1) by auto
  then show "ValuesFromBytes t (transposed (length xs) sz ?b) = Ok xs"
  proof cases
    case 1
    then show ?thesis
      using assms(2) dl fixed_kind [of t _ 4 xs]
      by (simp add: ValuesFromBytes_unfold newValue_def length_Bytes_fixed)
  next
    case 2
    then show ?thesis
      using assms(2) dl fixed_kind [of t _ 4 xs]
      by (simp add: ValuesFromBytes_unfold newValue_def length_Bytes_fixed)
  next
    case 3
    then show ?thesis
      using assms(2) dl fixed_kind [of t _ 4 xs]
      by (simp add: ValuesFromBytes_unfold newValue_def length_Bytes_fixed)
  next
    case 4
    then show ?thesis
      using assms(2) dl fixed_kind [of t _ 4 xs]
      by (simp add: ValuesFromBytes_unfold newValue_def length_Bytes_fixed)
  next
    case 5
    then show ?thesis
      using assms(2) dl fixed_kind [of t _ 4 xs]
      by (simp add: ValuesFromBytes_unfold newValue_def length_Bytes_fixed)
  next
    case 6
    then show ?thesis
      using assms(2) dl fixed_kind [of t _ 8 xs]
      by (simp add: ValuesFromBytes_unfold newValue_def length_Bytes_fixed)
  qed
qed

subsection \<open>The kinds with a length in front\<close>

lemma length_prefixed:
  assumes "Type_of v = t" "length_fits v"
    and "t = TypeString \<and> field = (1::nat) \<or> t = TypeNumberSequence \<and> field = 12
      \<or> t = TypeColorSequence \<and> field = 20"
  shows "\<exists>n payload. Bytes v = LittleEndian_PutUint32 (of_nat n) @ payload \<and> n < 2 ^ 32
    \<and> length payload = n * field"
proof (cases v)
  case (VString s)
  then show ?thesis
    using assms by (auto simp: ValueString_Bytes_def)
next
  case (VNumberSequence ks)
  have "length (concat (map keypoint_bytes_NSK ks)) = length ks * 12"
    by (rule length_concat_fixed) (simp add: list_all_iff)
  then show ?thesis
    using assms VNumberSequence by (auto simp: ValueNumberSequence_Bytes_def)
next
  case (VColorSequence ks)
  have "length (concat (map keypoint_bytes_CSK ks)) = length ks * 20"
    by (rule length_concat_fixed) (simp add: list_all_iff)
  then show ?thesis
    using assms VColorSequence by (auto simp: ValueColorSequence_Bytes_def)
qed (use assms in auto)

lemma concatenated_variable:
  assumes "t = TypeString \<and> field = (1::nat) \<or> t = TypeNumberSequence \<and> field = 12
      \<or> t = TypeColorSequence \<and> field = 20"
    and "list_all (\<lambda>v. Type_of v = t \<and> length_fits v) xs"
  shows "ValuesToBytes t xs = Ok (concat (map Bytes xs))"
    and "ValuesFromBytes t (concat (map Bytes xs)) = Ok xs"
proof -
  have ty: "list_all (\<lambda>v. Type_of v = t) xs"
    using assms(2) by (simp add: list_all_iff)
  show "ValuesToBytes t xs = Ok (concat (map Bytes xs))"
    using assms(1) ty by (auto simp: ValuesToBytes_unfold)
  obtain zero where z: "newValue t = Some zero"
    using assms(1) by (auto simp: newValue_def)
  have zt: "Type_of zero = t" using z by (rule newValue_Type_of)
  have "appendByteValues_variable (Some zero) field (concat (map Bytes xs)) = Ok (map id xs)"
  proof (rule appendByteValues_variable_concat)
    fix v assume "v \<in> set xs"
    then have v: "Type_of v = t" "length_fits v"
      using assms(2) by (auto simp: list_all_iff)
    then show "\<exists>n payload. Bytes v = LittleEndian_PutUint32 (of_nat n) @ payload \<and> n < 2 ^ 32
        \<and> length payload = n * field"
      using assms(1) by (rule length_prefixed)
    have "normalized v = v"
      using v(1) assms(1) by (cases v) auto
    then show "FromBytes zero (Bytes v) = Ok (id v)"
      using FromBytes_Bytes [of zero v] v zt assms(1) by auto
  qed
  then show "ValuesFromBytes t (concat (map Bytes xs)) = Ok xs"
    using assms(1) z by (auto simp: ValuesFromBytes_unfold appendByteValues_def)
qed

subsection \<open>\<open>PhysicalProperties\<close>\<close>

lemma physical_properties_roundtrip:
  assumes "list_all (\<lambda>v. Type_of v = TypePhysicalProperties) xs"
  shows "\<exists>b. physical_properties_bytes xs = Ok b
    \<and> physical_properties_values b = Ok (map normalized xs) \<and> (xs = [] \<longrightarrow> b = [])"
  using assms
proof (induction xs)
  case Nil
  show ?case by simp
next
  case (Cons x xs)
  then obtain b where b: "physical_properties_bytes xs = Ok b"
    "physical_properties_values b = Ok (map normalized xs)"
    by auto
  from Cons.prems obtain pp where x: "x = VPhysicalProperties pp"
    by (cases x) auto
  show ?case
    unfolding x using b
    by (cases pp) (simp add: PutUint_defs slice_def)
qed


subsection \<open>\<open>Reference\<close>\<close>

lemma reference_bytes_values:
  assumes "length pre = 4 * i" "list_all (\<lambda>v. Type_of v = TypeReference) xs"
  shows "\<exists>bs. reference_bytes i prev xs = Ok bs \<and> length bs = length xs * 4
    \<and> reference_values (pre @ bs) (length xs) i prev = xs"
  using assms
proof (induction xs arbitrary: i prev pre)
  case Nil
  show ?case by simp
next
  case (Cons x xs)
  from Cons.prems obtain r where x: "x = VReference r"
    by (cases x) auto
  let ?d = "if i = 0 then r else r - prev"
  let ?enc = "ValueReference_Bytes ?d"
  have "length (pre @ ?enc) = 4 * Suc i"
    using Cons.prems(1) by simp
  then obtain bs where bs: "reference_bytes (Suc i) r xs = Ok bs" "length bs = length xs * 4"
    "reference_values ((pre @ ?enc) @ bs) (length xs) (Suc i) r = xs"
    using Cons.IH [of "pre @ ?enc" "Suc i" r] Cons.prems(2) by auto
  have sl: "slice (pre @ ?enc @ bs) (i * 4) (i * 4 + 4) = ?enc"
    using Cons.prems(1) by (simp add: slice_append_skip)
  have step: "reference_values (pre @ ?enc @ bs) (Suc (length xs)) i prev
        = VReference r # reference_values (pre @ ?enc @ bs) (length xs) (Suc i) r"
    unfolding reference_values.simps sl by (simp add: Let_def)
  have rb: "reference_bytes i prev (x # xs) = Ok (?enc @ bs)"
    using bs(1) by (simp add: x)
  have "length (?enc @ bs) = length (x # xs) * 4"
    using bs(2) by simp
  moreover have "reference_values (pre @ ?enc @ bs) (length (x # xs)) i prev = x # xs"
    using step bs(3) by (simp add: x del: reference_values.simps)
  ultimately show ?case
    using rb by blast
qed

lemma reference_roundtrip:
  assumes "list_all (\<lambda>v. Type_of v = TypeReference) xs"
  shows "\<exists>b. ValuesToBytes_Reference xs = Ok b \<and> ValuesFromBytes_Reference b = Ok xs
    \<and> (xs = [] \<longrightarrow> b = [])"
proof (cases "xs = []")
  case True
  then show ?thesis
    by (simp add: ValuesToBytes_Reference_def ValuesFromBytes_Reference_def)
next
  case False
  obtain bs where bs: "reference_bytes 0 0 xs = Ok bs" "length bs = length xs * 4"
    "reference_values bs (length xs) 0 0 = xs"
    using reference_bytes_values [of "[]" 0 xs 0] assms by auto
  let ?b = "transposed (length xs) 4 bs"
  have n: "0 < length xs" using False by simp
  have il: "interleave bs 4 = Ok ?b"
    using interleave_eq_transposed [of 4 bs "length xs"] bs(2) by simp
  have dl: "deinterleave ?b 4 = Ok bs"
    using deinterleave_eq_transposed [of "length xs" 4 ?b]
      transposed_transposed [of bs "length xs" 4] n bs(2)
    by (simp add: length_transposed)
  have "0 < length ?b"
    using n by (simp add: length_transposed)
  then have ne: "?b \<noteq> []"
    by (rule length_greater_0_conv [THEN iffD1])
  have "ValuesToBytes_Reference xs = Ok ?b"
    using False bs(1) il by (simp add: ValuesToBytes_Reference_def)
  moreover have "ValuesFromBytes_Reference ?b = Ok xs"
    using ne dl bs(2,3) by (simp add: ValuesFromBytes_Reference_def length_transposed)
  ultimately show ?thesis
    using False by simp
qed


section \<open>Arrays: field-split packing\<close>

text \<open>
  \<open>cols\<close> are the field slices before interleaving, \<open>n\<close> values of \<open>k\<close> bytes in
  each for the width \<open>k\<close> of the field.
\<close>

lemma interleave_each_columns:
  assumes "list_all2 (\<lambda>c k. length c = n * k \<and> 0 < k) cols nbytes"
  shows "interleave_each cols nbytes = Ok (concat (map2 (transposed n) nbytes cols))"
  using assms
proof (induction rule: list_all2_induct)
  case Nil
  show ?case by simp
next
  case (Cons c cols k nbytes)
  have "interleave c (int k) = Ok (transposed n k c)"
    using Cons.hyps(1) interleave_eq_transposed [of k c n] by simp
  then show ?case
    using Cons.IH by simp
qed

lemma split_fields_columns:
  assumes "list_all2 (\<lambda>c k. length c = n * k \<and> 0 < k) cols nbytes"
  shows "split_fields (concat (map2 (transposed n) nbytes cols)) n nbytes
         = map2 (transposed n) nbytes cols"
  using assms
proof (induction rule: list_all2_induct)
  case Nil
  show ?case by simp
next
  case (Cons c cols k nbytes)
  have "length (transposed n k c) = k * n"
    by (simp add: length_transposed mult.commute)
  then show ?case
    using Cons.IH by simp
qed

lemma deinterleave_each_columns:
  assumes "0 < n" "list_all2 (\<lambda>c k. length c = n * k \<and> 0 < k) cols nbytes"
  shows "deinterleave_each (map2 (transposed n) nbytes cols) nbytes = (cols, Ok ())"
  using assms(2)
proof (induction rule: list_all2_induct)
  case Nil
  show ?case by simp
next
  case (Cons c cols k nbytes)
  have "deinterleave (transposed n k c) (int k) = Ok c"
    using deinterleave_eq_transposed [of n k "transposed n k c"]
      transposed_transposed [of c n k] assms(1) Cons.hyps(1)
    by (simp add: length_transposed)
  then show ?case
    using Cons.IH by simp
qed

lemma length_concat_columns:
  assumes "list_all2 (\<lambda>c k. length c = n * k \<and> 0 < k) cols nbytes"
  shows "length (concat (map2 (transposed n) nbytes cols)) = n * sum_list nbytes"
  using assms
  by (induction rule: list_all2_induct) (simp_all add: length_transposed distrib_left)

lemma concat_columns:
  assumes "list_all2 (\<lambda>c k. length c = n * k \<and> 0 < k) cols nbytes"
  shows "length (concat cols) = n * sum_list nbytes"
  using assms
  by (induction rule: list_all2_induct) (simp_all add: distrib_left)

lemma collect_map_Ok: "collect (map (\<lambda>i. Ok (f i)) is) = Ok (map f is)"
  by (induction "is") simp_all

lemma assert_fielders_Ok:
  "list_all (\<lambda>v. Type_of v = t \<and> fieldLen v \<noteq> None) xs \<Longrightarrow> assert_fielders t i xs = Ok ()"
  by (induction xs arbitrary: i) auto

lemma deinterleaveFields_fields:
  assumes "b \<noteq> []" "newValue t = Some zero" "fieldLen zero = Some nbytes"
    and "sum_list nbytes \<noteq> 0" "length b mod sum_list nbytes = 0"
    and "deinterleave_each (split_fields b (length b div sum_list nbytes) nbytes) nbytes
         = (fields, Ok ())"
  shows "deinterleaveFields t b =
    (concat fields,
     collect (map (\<lambda>i. set_fields zero i 0 fields nbytes) [0..<length b div sum_list nbytes]))"
  using assms by (simp add: deinterleaveFields_def Let_def del: sum_list_eq_0_iff)

text \<open>
  The round trip of a field-split array, from what it needs of the kind:
  the widths of the fields, the length of what \<open>fieldGet\<close> returns, and that
  \<open>fieldSet\<close> of every field in turn rebuilds the value.
\<close>

lemma fields_roundtrip:
  assumes zero: "newValue t = Some zero" "fieldLen zero = Some nbytes"
    and widths: "nbytes \<noteq> []" "list_all (\<lambda>k. 0 < k) nbytes"
    and vals: "list_all (\<lambda>v. Type_of v = t) xs" "xs \<noteq> []"
    and get: "\<And>v. Type_of v = t \<Longrightarrow> fieldLen v = Some nbytes"
      "\<And>v f. Type_of v = t \<Longrightarrow> f < length nbytes \<Longrightarrow> length (fieldGet v f) = nbytes ! f"
    and set: "\<And>i. i < length xs \<Longrightarrow>
      set_fields zero i 0 (map (field_column xs) [0..<length nbytes]) nbytes = Ok (xs ! i)"
  shows "\<exists>b. interleaveFields t xs = Ok b \<and> b \<noteq> []
    \<and> snd (deinterleaveFields t b) = Ok xs
    \<and> length b = length xs * sum_list nbytes"
proof -
  let ?n = "length xs"
  let ?cols = "map (field_column xs) [0..<length nbytes]"
  let ?b = "concat (map2 (transposed ?n) nbytes ?cols)"
  have n: "0 < ?n" using vals(2) by simp
  have col: "length (field_column xs f) = ?n * (nbytes ! f)" if "f < length nbytes" for f
  proof -
    have "list_all (\<lambda>v. length (fieldGet v f) = nbytes ! f) xs"
      using vals(1) by (rule list.pred_mono_strong) (use get(2) that in simp)
    then show ?thesis
      unfolding field_column_def by (rule length_concat_fixed)
  qed
  have all2: "list_all2 (\<lambda>c k. length c = ?n * k \<and> 0 < k) ?cols nbytes"
    using col widths(2) by (simp add: list_all2_conv_all_nth list_all_length)
  have af: "assert_fielders t 0 xs = Ok ()"
    by (rule assert_fielders_Ok, rule list.pred_mono_strong [OF vals(1)]) (simp add: get(1))
  have hd: "fieldLen (hd xs) = Some nbytes"
    using vals get(1) [of "hd xs"] by (cases xs) simp_all
  have ok: "field_lengths_ok xs nbytes"
    unfolding field_lengths_ok_def
    by (rule list.pred_mono_strong [OF vals(1)]) (simp add: list_all_iff get(2))
  have enc: "interleaveFields t xs = Ok ?b"
    using vals(2) af hd ok interleave_each_columns [OF all2]
    by (simp add: interleaveFields_def)
  have s: "0 < sum_list nbytes"
    using widths by (cases nbytes) simp_all
  have len: "length ?b = ?n * sum_list nbytes"
    using all2 by (rule length_concat_columns)
  have "0 < length ?b"
    unfolding len using n s by simp
  then have ne: "?b \<noteq> []"
    by (rule length_greater_0_conv [THEN iffD1])
  have dv: "length ?b mod sum_list nbytes = 0" "length ?b div sum_list nbytes = ?n"
    using len s by simp_all
  have de: "deinterleave_each (split_fields ?b (length ?b div sum_list nbytes) nbytes) nbytes
            = (?cols, Ok ())"
    unfolding dv(2) split_fields_columns [OF all2] by (rule deinterleave_each_columns [OF n all2])
  have s0: "sum_list nbytes \<noteq> 0" using s by (simp del: sum_list_eq_0_iff)
  have "deinterleaveFields t ?b =
          (concat ?cols, collect (map (\<lambda>i. set_fields zero i 0 ?cols nbytes) [0..<?n]))"
    using deinterleaveFields_fields [OF ne zero s0 dv(1) de] unfolding dv(2) .
  moreover have "map (\<lambda>i. set_fields zero i 0 ?cols nbytes) [0..<?n]
      = map (\<lambda>i. Ok (xs ! i)) [0..<?n]"
    by (rule map_cong) (simp_all add: set)
  ultimately have "snd (deinterleaveFields t ?b) = Ok xs"
    by (simp add: collect_map_Ok map_nth)
  then show ?thesis
    using enc ne len by (simp add: mult.commute)
qed


subsection \<open>The seven kinds with fields\<close>

lemma slice_field_column:
  "list_all (\<lambda>v. length (fieldGet v f) = k) xs \<Longrightarrow> i < length xs \<Longrightarrow>
   slice (field_column xs f) (i * k) (i * k + k) = fieldGet (xs ! i) f"
  unfolding field_column_def by (rule slice_concat_fixed)

lemmas fieldLen_defs =
  ValueUDim_fieldLen_def ValueUDim2_fieldLen_def ValueColor3_fieldLen_def
  ValueVector2_fieldLen_def ValueVector3_fieldLen_def ValueRect2D_fieldLen_def
  ValueColor3uint8_fieldLen_def

lemma less_2_cases: "f < 2 \<Longrightarrow> f = 0 \<or> f = Suc 0"
  by arith

lemma less_3_cases: "f < 3 \<Longrightarrow> f = 0 \<or> f = Suc 0 \<or> f = 2"
  by arith

lemma less_4_cases: "f < 4 \<Longrightarrow> f = 0 \<or> f = Suc 0 \<or> f = 2 \<or> f = 3"
  by arith

lemma UDim_fields:
  assumes "list_all (\<lambda>v. Type_of v = TypeUDim) xs" "xs \<noteq> []"
  shows "\<exists>b. interleaveFields TypeUDim xs = Ok b \<and> b \<noteq> []
    \<and> snd (deinterleaveFields TypeUDim b) = Ok xs \<and> length b = length xs * sum_list [4, 4]"
proof (rule fields_roundtrip [where zero = "VUDim (ValueUDim 0 0)"])
  show "newValue TypeUDim = Some (VUDim (ValueUDim 0 0))"
    by (simp add: newValue_def)
  show "fieldLen (VUDim (ValueUDim 0 0)) = Some [4, 4]"
    by (simp add: fieldLen_defs)
  show "fieldLen v = Some [4, 4]" if "Type_of v = TypeUDim" for v
    using that by (cases v) (simp_all add: fieldLen_defs)
  show len: "length (fieldGet v f) = [4, 4] ! f"
    if "Type_of v = TypeUDim" "f < length [4, 4 :: nat]" for v f
  proof (cases v)
    case (VUDim u)
    obtain sc off where u: "u = ValueUDim sc off"
      by (metis ValueUDim.exhaust)
    show ?thesis
      using that(2) by (auto simp: VUDim u dest!: less_2_cases)
  qed (use that in simp_all)
  show "set_fields (VUDim (ValueUDim 0 0)) i 0
          (map (field_column xs) [0..<length [4, 4 :: nat]]) [4, 4] = Ok (xs ! i)"
    if "i < length xs" for i
  proof -
    have col: "list_all (\<lambda>v. length (fieldGet v f) = 4) xs" if "f < 2" for f
      using assms(1)
      by (rule list.pred_mono_strong) (use len [of _ f] that in \<open>auto dest!: less_2_cases\<close>)
    have "Type_of (xs ! i) = TypeUDim"
      using assms(1) \<open>i < length xs\<close> by (simp add: list_all_length)
    then obtain sc off where v: "xs ! i = VUDim (ValueUDim sc off)"
      by (cases "xs ! i"; simp) (metis ValueUDim.exhaust)
    have s: "slice (field_column xs f) (i * 4) (i * 4 + 4) = fieldGet (xs ! i) f"
      if "f < 2" for f
      using col [OF that] \<open>i < length xs\<close> by (rule slice_field_column)
    show ?thesis
      using s [of 0] s [of "Suc 0"] by (simp add: upt_rec v)
  qed
qed (use assms in simp_all)

lemma UDim2_fields:
  assumes "list_all (\<lambda>v. Type_of v = TypeUDim2) xs" "xs \<noteq> []"
  shows "\<exists>b. interleaveFields TypeUDim2 xs = Ok b \<and> b \<noteq> []
    \<and> snd (deinterleaveFields TypeUDim2 b) = Ok xs \<and> length b = length xs * sum_list [4, 4, 4, 4]"
proof (rule fields_roundtrip [where zero = "VUDim2 (ValueUDim2 0 0 0 0)"])
  show "newValue TypeUDim2 = Some (VUDim2 (ValueUDim2 0 0 0 0))"
    by (simp add: newValue_def)
  show "fieldLen (VUDim2 (ValueUDim2 0 0 0 0)) = Some [4, 4, 4, 4]"
    by (simp add: fieldLen_defs)
  show "fieldLen v = Some [4, 4, 4, 4]" if "Type_of v = TypeUDim2" for v
    using that by (cases v) (simp_all add: fieldLen_defs)
  show len: "length (fieldGet v f) = [4, 4, 4, 4] ! f"
    if "Type_of v = TypeUDim2" "f < length [4, 4, 4, 4 :: nat]" for v f
  proof (cases v)
    case (VUDim2 u)
    obtain sx sy ox oy where u: "u = ValueUDim2 sx sy ox oy"
      by (metis ValueUDim2.exhaust)
    show ?thesis
      using that(2) by (auto simp: VUDim2 u dest!: less_4_cases)
  qed (use that in simp_all)
  show "set_fields (VUDim2 (ValueUDim2 0 0 0 0)) i 0
          (map (field_column xs) [0..<length [4, 4, 4, 4 :: nat]]) [4, 4, 4, 4] = Ok (xs ! i)"
    if "i < length xs" for i
  proof -
    have col: "list_all (\<lambda>v. length (fieldGet v f) = 4) xs" if "f < 4" for f
      using assms(1)
      by (rule list.pred_mono_strong) (use len [of _ f] that in \<open>auto dest!: less_4_cases\<close>)
    have "Type_of (xs ! i) = TypeUDim2"
      using assms(1) \<open>i < length xs\<close> by (simp add: list_all_length)
    then obtain sx sy ox oy where v: "xs ! i = VUDim2 (ValueUDim2 sx sy ox oy)"
      by (cases "xs ! i"; simp) (metis ValueUDim2.exhaust)
    have s: "slice (field_column xs f) (i * 4) (i * 4 + 4) = fieldGet (xs ! i) f"
      if "f < 4" for f
      using col [OF that] \<open>i < length xs\<close> by (rule slice_field_column)
    show ?thesis
      using s [of 0] s [of "Suc 0"] s [of "Suc (Suc 0)"] s [of "Suc (Suc (Suc 0))"] by (simp add: upt_rec v)
  qed
qed (use assms in simp_all)

lemma Color3_fields:
  assumes "list_all (\<lambda>v. Type_of v = TypeColor3) xs" "xs \<noteq> []"
  shows "\<exists>b. interleaveFields TypeColor3 xs = Ok b \<and> b \<noteq> []
    \<and> snd (deinterleaveFields TypeColor3 b) = Ok xs \<and> length b = length xs * sum_list [4, 4, 4]"
proof (rule fields_roundtrip [where zero = "VColor3 (ValueColor3 0 0 0)"])
  show "newValue TypeColor3 = Some (VColor3 (ValueColor3 0 0 0))"
    by (simp add: newValue_def)
  show "fieldLen (VColor3 (ValueColor3 0 0 0)) = Some [4, 4, 4]"
    by (simp add: fieldLen_defs)
  show "fieldLen v = Some [4, 4, 4]" if "Type_of v = TypeColor3" for v
    using that by (cases v) (simp_all add: fieldLen_defs)
  show len: "length (fieldGet v f) = [4, 4, 4] ! f"
    if "Type_of v = TypeColor3" "f < length [4, 4, 4 :: nat]" for v f
  proof (cases v)
    case (VColor3 u)
    obtain r g bl where u: "u = ValueColor3 r g bl"
      by (metis ValueColor3.exhaust)
    show ?thesis
      using that(2) by (auto simp: VColor3 u dest!: less_3_cases)
  qed (use that in simp_all)
  show "set_fields (VColor3 (ValueColor3 0 0 0)) i 0
          (map (field_column xs) [0..<length [4, 4, 4 :: nat]]) [4, 4, 4] = Ok (xs ! i)"
    if "i < length xs" for i
  proof -
    have col: "list_all (\<lambda>v. length (fieldGet v f) = 4) xs" if "f < 3" for f
      using assms(1)
      by (rule list.pred_mono_strong) (use len [of _ f] that in \<open>auto dest!: less_3_cases\<close>)
    have "Type_of (xs ! i) = TypeColor3"
      using assms(1) \<open>i < length xs\<close> by (simp add: list_all_length)
    then obtain r g bl where v: "xs ! i = VColor3 (ValueColor3 r g bl)"
      by (cases "xs ! i"; simp) (metis ValueColor3.exhaust)
    have s: "slice (field_column xs f) (i * 4) (i * 4 + 4) = fieldGet (xs ! i) f"
      if "f < 3" for f
      using col [OF that] \<open>i < length xs\<close> by (rule slice_field_column)
    show ?thesis
      using s [of 0] s [of "Suc 0"] s [of "Suc (Suc 0)"] by (simp add: upt_rec v)
  qed
qed (use assms in simp_all)

lemma Vector2_fields:
  assumes "list_all (\<lambda>v. Type_of v = TypeVector2) xs" "xs \<noteq> []"
  shows "\<exists>b. interleaveFields TypeVector2 xs = Ok b \<and> b \<noteq> []
    \<and> snd (deinterleaveFields TypeVector2 b) = Ok xs \<and> length b = length xs * sum_list [4, 4]"
proof (rule fields_roundtrip [where zero = "VVector2 (ValueVector2 0 0)"])
  show "newValue TypeVector2 = Some (VVector2 (ValueVector2 0 0))"
    by (simp add: newValue_def)
  show "fieldLen (VVector2 (ValueVector2 0 0)) = Some [4, 4]"
    by (simp add: fieldLen_defs)
  show "fieldLen v = Some [4, 4]" if "Type_of v = TypeVector2" for v
    using that by (cases v) (simp_all add: fieldLen_defs)
  show len: "length (fieldGet v f) = [4, 4] ! f"
    if "Type_of v = TypeVector2" "f < length [4, 4 :: nat]" for v f
  proof (cases v)
    case (VVector2 u)
    obtain x y where u: "u = ValueVector2 x y"
      by (metis ValueVector2.exhaust)
    show ?thesis
      using that(2) by (auto simp: VVector2 u dest!: less_2_cases)
  qed (use that in simp_all)
  show "set_fields (VVector2 (ValueVector2 0 0)) i 0
          (map (field_column xs) [0..<length [4, 4 :: nat]]) [4, 4] = Ok (xs ! i)"
    if "i < length xs" for i
  proof -
    have col: "list_all (\<lambda>v. length (fieldGet v f) = 4) xs" if "f < 2" for f
      using assms(1)
      by (rule list.pred_mono_strong) (use len [of _ f] that in \<open>auto dest!: less_2_cases\<close>)
    have "Type_of (xs ! i) = TypeVector2"
      using assms(1) \<open>i < length xs\<close> by (simp add: list_all_length)
    then obtain x y where v: "xs ! i = VVector2 (ValueVector2 x y)"
      by (cases "xs ! i"; simp) (metis ValueVector2.exhaust)
    have s: "slice (field_column xs f) (i * 4) (i * 4 + 4) = fieldGet (xs ! i) f"
      if "f < 2" for f
      using col [OF that] \<open>i < length xs\<close> by (rule slice_field_column)
    show ?thesis
      using s [of 0] s [of "Suc 0"] by (simp add: upt_rec v)
  qed
qed (use assms in simp_all)

lemma Vector3_fields:
  assumes "list_all (\<lambda>v. Type_of v = TypeVector3) xs" "xs \<noteq> []"
  shows "\<exists>b. interleaveFields TypeVector3 xs = Ok b \<and> b \<noteq> []
    \<and> snd (deinterleaveFields TypeVector3 b) = Ok xs \<and> length b = length xs * sum_list [4, 4, 4]"
proof (rule fields_roundtrip [where zero = "VVector3 (ValueVector3 0 0 0)"])
  show "newValue TypeVector3 = Some (VVector3 (ValueVector3 0 0 0))"
    by (simp add: newValue_def)
  show "fieldLen (VVector3 (ValueVector3 0 0 0)) = Some [4, 4, 4]"
    by (simp add: fieldLen_defs)
  show "fieldLen v = Some [4, 4, 4]" if "Type_of v = TypeVector3" for v
    using that by (cases v) (simp_all add: fieldLen_defs)
  show len: "length (fieldGet v f) = [4, 4, 4] ! f"
    if "Type_of v = TypeVector3" "f < length [4, 4, 4 :: nat]" for v f
  proof (cases v)
    case (VVector3 u)
    obtain x y z where u: "u = ValueVector3 x y z"
      by (metis ValueVector3.exhaust)
    show ?thesis
      using that(2) by (auto simp: VVector3 u dest!: less_3_cases)
  qed (use that in simp_all)
  show "set_fields (VVector3 (ValueVector3 0 0 0)) i 0
          (map (field_column xs) [0..<length [4, 4, 4 :: nat]]) [4, 4, 4] = Ok (xs ! i)"
    if "i < length xs" for i
  proof -
    have col: "list_all (\<lambda>v. length (fieldGet v f) = 4) xs" if "f < 3" for f
      using assms(1)
      by (rule list.pred_mono_strong) (use len [of _ f] that in \<open>auto dest!: less_3_cases\<close>)
    have "Type_of (xs ! i) = TypeVector3"
      using assms(1) \<open>i < length xs\<close> by (simp add: list_all_length)
    then obtain x y z where v: "xs ! i = VVector3 (ValueVector3 x y z)"
      by (cases "xs ! i"; simp) (metis ValueVector3.exhaust)
    have s: "slice (field_column xs f) (i * 4) (i * 4 + 4) = fieldGet (xs ! i) f"
      if "f < 3" for f
      using col [OF that] \<open>i < length xs\<close> by (rule slice_field_column)
    show ?thesis
      using s [of 0] s [of "Suc 0"] s [of "Suc (Suc 0)"] by (simp add: upt_rec v)
  qed
qed (use assms in simp_all)

lemma Rect2D_fields:
  assumes "list_all (\<lambda>v. Type_of v = TypeRect2D) xs" "xs \<noteq> []"
  shows "\<exists>b. interleaveFields TypeRect2D xs = Ok b \<and> b \<noteq> []
    \<and> snd (deinterleaveFields TypeRect2D b) = Ok xs \<and> length b = length xs * sum_list [4, 4, 4, 4]"
proof (rule fields_roundtrip [where zero = "VRect2D (ValueRect2D (ValueVector2 0 0) (ValueVector2 0 0))"])
  show "newValue TypeRect2D = Some (VRect2D (ValueRect2D (ValueVector2 0 0) (ValueVector2 0 0)))"
    by (simp add: newValue_def)
  show "fieldLen (VRect2D (ValueRect2D (ValueVector2 0 0) (ValueVector2 0 0))) = Some [4, 4, 4, 4]"
    by (simp add: fieldLen_defs)
  show "fieldLen v = Some [4, 4, 4, 4]" if "Type_of v = TypeRect2D" for v
    using that by (cases v) (simp_all add: fieldLen_defs)
  show len: "length (fieldGet v f) = [4, 4, 4, 4] ! f"
    if "Type_of v = TypeRect2D" "f < length [4, 4, 4, 4 :: nat]" for v f
  proof (cases v)
    case (VRect2D u)
    obtain x0 y0 x1 y1 where u: "u = ValueRect2D (ValueVector2 x0 y0) (ValueVector2 x1 y1)"
      by (metis ValueRect2D.exhaust ValueVector2.exhaust)
    show ?thesis
      using that(2) by (auto simp: VRect2D u dest!: less_4_cases)
  qed (use that in simp_all)
  show "set_fields (VRect2D (ValueRect2D (ValueVector2 0 0) (ValueVector2 0 0))) i 0
          (map (field_column xs) [0..<length [4, 4, 4, 4 :: nat]]) [4, 4, 4, 4] = Ok (xs ! i)"
    if "i < length xs" for i
  proof -
    have col: "list_all (\<lambda>v. length (fieldGet v f) = 4) xs" if "f < 4" for f
      using assms(1)
      by (rule list.pred_mono_strong) (use len [of _ f] that in \<open>auto dest!: less_4_cases\<close>)
    have "Type_of (xs ! i) = TypeRect2D"
      using assms(1) \<open>i < length xs\<close> by (simp add: list_all_length)
    then obtain x0 y0 x1 y1 where v: "xs ! i = VRect2D (ValueRect2D (ValueVector2 x0 y0) (ValueVector2 x1 y1))"
      by (cases "xs ! i"; simp) (metis ValueRect2D.exhaust ValueVector2.exhaust)
    have s: "slice (field_column xs f) (i * 4) (i * 4 + 4) = fieldGet (xs ! i) f"
      if "f < 4" for f
      using col [OF that] \<open>i < length xs\<close> by (rule slice_field_column)
    show ?thesis
      using s [of 0] s [of "Suc 0"] s [of "Suc (Suc 0)"] s [of "Suc (Suc (Suc 0))"] by (simp add: upt_rec v)
  qed
qed (use assms in simp_all)

lemma Color3uint8_fields:
  assumes "list_all (\<lambda>v. Type_of v = TypeColor3uint8) xs" "xs \<noteq> []"
  shows "\<exists>b. interleaveFields TypeColor3uint8 xs = Ok b \<and> b \<noteq> []
    \<and> snd (deinterleaveFields TypeColor3uint8 b) = Ok xs \<and> length b = length xs * sum_list [1, 1, 1]"
proof (rule fields_roundtrip [where zero = "VColor3uint8 (ValueColor3uint8 0 0 0)"])
  show "newValue TypeColor3uint8 = Some (VColor3uint8 (ValueColor3uint8 0 0 0))"
    by (simp add: newValue_def)
  show "fieldLen (VColor3uint8 (ValueColor3uint8 0 0 0)) = Some [1, 1, 1]"
    by (simp add: fieldLen_defs)
  show "fieldLen v = Some [1, 1, 1]" if "Type_of v = TypeColor3uint8" for v
    using that by (cases v) (simp_all add: fieldLen_defs)
  show len: "length (fieldGet v f) = [1, 1, 1] ! f"
    if "Type_of v = TypeColor3uint8" "f < length [1, 1, 1 :: nat]" for v f
  proof (cases v)
    case (VColor3uint8 u)
    obtain r g bl where u: "u = ValueColor3uint8 r g bl"
      by (metis ValueColor3uint8.exhaust)
    show ?thesis
      using that(2) by (auto simp: VColor3uint8 u dest!: less_3_cases)
  qed (use that in simp_all)
  show "set_fields (VColor3uint8 (ValueColor3uint8 0 0 0)) i 0
          (map (field_column xs) [0..<length [1, 1, 1 :: nat]]) [1, 1, 1] = Ok (xs ! i)"
    if "i < length xs" for i
  proof -
    have col: "list_all (\<lambda>v. length (fieldGet v f) = 1) xs" if "f < 3" for f
      using assms(1)
      by (rule list.pred_mono_strong) (use len [of _ f] that in \<open>auto dest!: less_3_cases\<close>)
    have "Type_of (xs ! i) = TypeColor3uint8"
      using assms(1) \<open>i < length xs\<close> by (simp add: list_all_length)
    then obtain r g bl where v: "xs ! i = VColor3uint8 (ValueColor3uint8 r g bl)"
      by (cases "xs ! i"; simp) (metis ValueColor3uint8.exhaust)
    have s: "slice (field_column xs f) (i * 1) (i * 1 + 1) = fieldGet (xs ! i) f"
      if "f < 3" for f
      using col [OF that] \<open>i < length xs\<close> by (rule slice_field_column)
    show ?thesis
      using s [of 0] s [of "Suc 0"] s [of "Suc (Suc 0)"] by (simp add: upt_rec v)
  qed
qed (use assms in simp_all)


subsection \<open>\<open>CFrame\<close>\<close>

lemma cframe_positions_types:
  "list_all (\<lambda>v. Type_of v = TypeCFrame) xs \<Longrightarrow>
   list_all (\<lambda>v. Type_of v = TypeVector3) (cframe_positions xs)
   \<and> length (cframe_positions xs) = length xs"
proof (induction xs)
  case Nil
  show ?case by simp
next
  case (Cons x xs)
  then show ?case by (cases x) simp_all
qed

lemma cframe_matrix_bytes_Ok:
  "list_all (\<lambda>v. Type_of v = TypeCFrame) xs \<Longrightarrow> \<exists>m. cframe_matrix_bytes xs = Ok m"
proof (induction xs)
  case Nil
  show ?case by simp
next
  case (Cons x xs)
  then show ?case by (cases x) auto
qed

lemma set_positions_matrices:
  "list_all (\<lambda>v. Type_of v = TypeCFrame) xs \<Longrightarrow>
   set_positions (map matrix_of xs) (cframe_positions xs) = Ok (map normalized xs)"
proof (induction xs)
  case Nil
  show ?case by simp
next
  case (Cons x xs)
  from Cons.prems obtain cf where x: "x = VCFrame cf"
    by (cases x) auto
  show ?case
    using Cons unfolding x by (cases cf) simp
qed

lemma cframe_matrices_read:
  assumes "list_all (\<lambda>v. Type_of v = TypeCFrame) xs" "cframe_matrix_bytes xs = Ok m"
    and "length pb = 12 * (k + length xs)"
  shows "cframe_matrices (pre @ m @ pb) (length pre) (12 * k)
         = Ok (map matrix_of xs, length pre + length m)"
  using assms
proof (induction xs arbitrary: pre k m)
  case Nil
  then show ?case
    by (subst cframe_matrices.simps) simp
next
  case (Cons x xs)
  from Cons.prems(1) obtain special rotation position
    where x: "x = VCFrame (ValueCFrame special rotation position)"
    by (cases x; simp) (metis ValueCFrame.exhaust)
  obtain m' where m': "cframe_matrix_bytes xs = Ok m'"
    using cframe_matrix_bytes_Ok Cons.prems(1) by auto
  let ?h = "[special] @ (if special = 0 then rotation_bytes rotation else [])"
  have m: "m = ?h @ m'"
    using Cons.prems(2) m' by (auto simp: x)
  have pb: "length pb = 12 * (Suc k + length xs)"
    using Cons.prems(3) by simp
  have ih: "cframe_matrices ((pre @ ?h) @ m' @ pb) (length (pre @ ?h)) (12 * Suc k)
            = Ok (map matrix_of xs, length (pre @ ?h) + length m')"
    using Cons.IH [of m' "Suc k" "pre @ ?h"] Cons.prems(1) m' pb by simp
  have at: "(pre @ m @ pb) ! length pre = special"
    by (simp add: m nth_append)
  have more: "int (length (pre @ m @ pb)) - int (length pre) > int (12 * k)"
    using pb by (simp add: m)
  show ?case
  proof (cases "special = 0")
    case True
    have r: "drop (length pre + 1) (pre @ m @ pb) = rotation_bytes rotation @ m' @ pb"
      by (simp add: m True)
    show ?thesis
      using ih at more True
      by (subst cframe_matrices.simps) (simp add: r Let_def x, simp add: m ac_simps)
  next
    case False
    show ?thesis
      using ih at more False
      by (subst cframe_matrices.simps) (simp add: Let_def x, simp add: m ac_simps)
  qed
qed

lemma cframe_roundtrip:
  assumes "list_all (\<lambda>v. Type_of v = TypeCFrame) xs"
  shows "\<exists>b. ValuesToBytes_CFrame xs = Ok b
    \<and> snd (ValuesFromBytes_CFrame b) = Ok (map normalized xs) \<and> (xs = [] \<longrightarrow> b = [])"
proof -
  obtain m where m: "cframe_matrix_bytes xs = Ok m"
    using cframe_matrix_bytes_Ok assms by auto
  let ?ps = "cframe_positions xs"
  have ps: "list_all (\<lambda>v. Type_of v = TypeVector3) ?ps" "length ?ps = length xs"
    using cframe_positions_types [OF assms] by simp_all
  have "\<exists>pb. interleaveFields TypeVector3 ?ps = Ok pb
      \<and> snd (deinterleaveFields TypeVector3 pb) = Ok ?ps \<and> length pb = 12 * length xs
      \<and> (xs = [] \<longrightarrow> pb = [])"
  proof (cases "xs = []")
    case True
    then show ?thesis
      by (simp add: interleaveFields_def deinterleaveFields_def)
  next
    case False
    then have "?ps \<noteq> []" using ps(2) by auto
    then show ?thesis
      using Vector3_fields [OF ps(1)] ps(2) False by auto
  qed
  then obtain pb where pb: "interleaveFields TypeVector3 ?ps = Ok pb"
    "snd (deinterleaveFields TypeVector3 pb) = Ok ?ps" "length pb = 12 * length xs"
    "xs = [] \<longrightarrow> pb = []"
    by auto
  obtain tail where tail: "deinterleaveFields TypeVector3 pb = (tail, Ok ?ps)"
    using pb(2) by (cases "deinterleaveFields TypeVector3 pb") auto
  have enc: "ValuesToBytes_CFrame xs = Ok (m @ pb)"
    using m pb(1) by (simp add: ValuesToBytes_CFrame_def)
  have rd: "cframe_matrices (m @ pb) 0 0 = Ok (map matrix_of xs, length m)"
    using cframe_matrices_read [OF assms m, of pb 0 "[]"] pb(3) by simp
  have "snd (ValuesFromBytes_CFrame (m @ pb)) = Ok (map normalized xs)"
    using rd tail ps(2) set_positions_matrices [OF assms]
    by (simp add: ValuesFromBytes_CFrame_def)
  moreover have "xs = [] \<longrightarrow> m @ pb = []"
    using m pb(4) by auto
  ultimately show ?thesis
    using enc by blast
qed


section \<open>Arrays: every kind\<close>

lemma fielders_roundtrip:
  assumes "t \<in> {TypeUDim, TypeUDim2, TypeColor3, TypeVector2, TypeVector3, TypeRect2D,
      TypeColor3uint8}"
    and "list_all (\<lambda>v. Type_of v = t) xs" "xs \<noteq> []"
  shows "\<exists>b. interleaveFields t xs = Ok b \<and> snd (deinterleaveFields t b) = Ok xs"
proof -
  consider "t = TypeUDim" | "t = TypeUDim2" | "t = TypeColor3" | "t = TypeVector2"
    | "t = TypeVector3" | "t = TypeRect2D" | "t = TypeColor3uint8"
    using assms(1) by auto
  then show ?thesis
  proof cases
    case 1 then show ?thesis using UDim_fields [of xs] assms(2,3) by auto
  next
    case 2 then show ?thesis using UDim2_fields [of xs] assms(2,3) by auto
  next
    case 3 then show ?thesis using Color3_fields [of xs] assms(2,3) by auto
  next
    case 4 then show ?thesis using Vector2_fields [of xs] assms(2,3) by auto
  next
    case 5 then show ?thesis using Vector3_fields [of xs] assms(2,3) by auto
  next
    case 6 then show ?thesis using Rect2D_fields [of xs] assms(2,3) by auto
  next
    case 7 then show ?thesis using Color3uint8_fields [of xs] assms(2,3) by auto
  qed
qed

lemma map_normalized_plain:
  assumes "list_all (\<lambda>v. Type_of v = t) xs" "t \<noteq> TypeCFrame" "t \<noteq> TypePhysicalProperties"
  shows "map normalized xs = xs"
proof -
  have "normalized v = v" if "v \<in> set xs" for v
  proof -
    have "Type_of v = t" using that assms(1) by (simp add: list_all_iff)
    then show ?thesis using assms(2,3) by (cases v) auto
  qed
  then show ?thesis by (simp add: map_idI)
qed

lemma roundtrip_concatenated:
  assumes "t \<in> {TypeBool, TypeFaces, TypeAxes, TypeVector3int16, TypeDouble, TypeNumberRange,
      TypeRay, TypeString, TypeNumberSequence, TypeColorSequence}"
    and "list_all (\<lambda>v. Type_of v = t \<and> length_fits v) xs"
  shows "\<exists>b. ValuesToBytes t xs = Ok b \<and> (xs = [] \<longrightarrow> b = [])
    \<and> ValuesFromBytes t b = Ok (map normalized xs)"
proof -
  have ty: "list_all (\<lambda>v. Type_of v = t) xs"
    using assms(2) by (simp add: list_all_iff)
  have same: "map normalized xs = xs"
    using ty by (rule map_normalized_plain) (use assms(1) in auto)
  consider (fixed) "t \<in> {TypeBool, TypeFaces, TypeAxes, TypeVector3int16, TypeDouble,
      TypeNumberRange, TypeRay}"
    | (variable) "t = TypeString \<or> t = TypeNumberSequence \<or> t = TypeColorSequence"
    using assms(1) by auto
  then show ?thesis
  proof cases
    case fixed
    then show ?thesis
      using concatenated_fixed [OF fixed ty] same by auto
  next
    case variable
    then obtain field :: nat where "t = TypeString \<and> field = 1
        \<or> t = TypeNumberSequence \<and> field = 12 \<or> t = TypeColorSequence \<and> field = 20"
      by auto
    then show ?thesis
      using concatenated_variable [OF _ assms(2), of field] same by auto
  qed
qed

lemma roundtrip_interleaved:
  assumes "interleaved_scalar t" "list_all (\<lambda>v. Type_of v = t) xs"
  shows "\<exists>b. ValuesToBytes t xs = Ok b \<and> (xs = [] \<longrightarrow> b = [])
    \<and> (xs \<noteq> [] \<longrightarrow> ValuesFromBytes t b = Ok (map normalized xs))"
proof -
  have same: "map normalized xs = xs"
    using assms(2) by (rule map_normalized_plain) (use assms(1) in \<open>auto simp: interleaved_scalar_def\<close>)
  obtain sz :: nat where sz: "t \<in> {TypeInt, TypeFloat, TypeBrickColor, TypeToken, TypeSharedString}
      \<and> sz = 4 \<or> t = TypeInt64 \<and> sz = 8"
    using assms(1) by (auto simp: interleaved_scalar_def)
  let ?b = "transposed (length xs) sz (concat (map Bytes xs))"
  have "ValuesToBytes t xs = Ok ?b"
    using sz assms(2) by (rule interleaved_scalars(1))
  moreover have "xs = [] \<longrightarrow> ?b = []"
    by simp
  moreover have "xs \<noteq> [] \<longrightarrow> ValuesFromBytes t ?b = Ok (map normalized xs)"
    using interleaved_scalars(2) [OF sz assms(2)] same by simp
  ultimately show ?thesis
    by blast
qed

lemma roundtrip_fields:
  assumes "t \<in> {TypeUDim, TypeUDim2, TypeColor3, TypeVector2, TypeVector3, TypeRect2D,
      TypeColor3uint8}"
    and "list_all (\<lambda>v. Type_of v = t) xs"
  shows "\<exists>b. ValuesToBytes t xs = Ok b \<and> (xs = [] \<longrightarrow> b = [])
    \<and> ValuesFromBytes t b = Ok (map normalized xs)"
proof -
  have same: "map normalized xs = xs"
    using assms(2) by (rule map_normalized_plain) (use assms(1) in auto)
  have enc: "ValuesToBytes t xs = interleaveFields t xs"
    using assms by (auto simp: ValuesToBytes_unfold)
  have dec: "ValuesFromBytes t b = snd (deinterleaveFields t b)" for b
    using assms(1) by (auto simp: ValuesFromBytes_unfold)
  show ?thesis
  proof (cases "xs = []")
    case True
    have "ValuesToBytes t [] = Ok []"
      using enc True by (simp add: interleaveFields_def)
    then show ?thesis
      using True by (simp add: dec deinterleaveFields_def)
  next
    case False
    then show ?thesis
      using fielders_roundtrip [OF assms False] same by (auto simp: enc dec)
  qed
qed

lemma roundtrip_special:
  assumes "t \<in> {TypeCFrame, TypeReference, TypePhysicalProperties}"
    and "list_all (\<lambda>v. Type_of v = t) xs"
  shows "\<exists>b. ValuesToBytes t xs = Ok b \<and> (xs = [] \<longrightarrow> b = [])
    \<and> ValuesFromBytes t b = Ok (map normalized xs)"
proof -
  consider "t = TypeCFrame" | "t = TypeReference" | "t = TypePhysicalProperties"
    using assms(1) by auto
  then show ?thesis
  proof cases
    case 1
    then show ?thesis
      using cframe_roundtrip [of xs] assms(2)
      by (auto simp: ValuesToBytes_unfold ValuesFromBytes_unfold)
  next
    case 2
    then have "map normalized xs = xs"
      using map_normalized_plain [OF assms(2)] by simp
    then show ?thesis
      using 2 reference_roundtrip [of xs] assms(2)
      by (auto simp: ValuesToBytes_unfold ValuesFromBytes_unfold)
  next
    case 3
    then show ?thesis
      using physical_properties_roundtrip [of xs] assms(2)
      by (auto simp: ValuesToBytes_unfold ValuesFromBytes_unfold)
  qed
qed


section \<open>Further properties\<close>

text \<open>
  On a buffer that is not empty \<open>deinterleave\<close> undoes \<open>interleave\<close>, and on a square
  one \<open>interleave\<close> undoes itself.
\<close>

lemma deinterleave_interleave_nonempty:
  assumes "0 < stride" "stride dvd length buf" "buf \<noteq> []"
  shows "and_then (interleave buf (int stride)) (\<lambda>b. deinterleave b (int stride)) = Ok buf"
proof -
  obtain rows where rows: "length buf = rows * stride"
    using assms(2) by (auto simp: dvd_def mult.commute)
  then have "0 < rows"
    using assms(3) by (cases rows) auto
  then show ?thesis
    using assms(1) rows by (rule deinterleave_interleave)
qed

lemma interleave_involution:
  assumes "0 < stride" "length buf = stride * stride"
  shows "and_then (interleave buf (int stride)) (\<lambda>b. interleave b (int stride)) = Ok buf"
  using assms interleave_eq_transposed [of stride buf stride]
    interleave_eq_transposed [of stride "transposed stride stride buf" stride]
    transposed_transposed [of buf stride stride]
  by (simp add: length_transposed)

text \<open>When \<open>FromBytes\<close> of the two discriminated layouts panics.\<close>

lemma FromBytes_CFrame_Panic_iff:
  "is_Panic (FromBytes (VCFrame cf) b) \<longleftrightarrow> b = []"
  by (cases cf) simp

lemma FromBytes_PhysicalProperties_Panic_iff:
  "is_Panic (FromBytes (VPhysicalProperties pp) b) \<longleftrightarrow> b = [] \<or> (b ! 0 \<noteq> 0 \<and> length b = 1)"
  by (cases pp) (auto simp: Let_def)

text \<open>
  The field-split kinds do reject a length that is not a multiple of the value
  size, as the scalar kinds and \<open>Reference\<close> do.
\<close>

lemma ValuesFromBytes_Vector3_bad_length:
  "length b mod 12 \<noteq> 0 \<Longrightarrow> ValuesFromBytes TypeVector3 b = Err (ErrNotDivisible (length b) 12)"
  by (auto simp: ValuesFromBytes_unfold deinterleaveFields_def newValue_def fieldLen_defs)

lemma ValuesFromBytes_Int_bad_length:
  "length b mod 4 \<noteq> 0 \<Longrightarrow> ValuesFromBytes TypeInt b = Err ErrSizeNotDivisor"
proof -
  assume "length b mod 4 \<noteq> 0"
  then have "int (length b) mod 4 \<noteq> 0"
    by presburger
  then show ?thesis
    by (simp add: ValuesFromBytes_unfold deinterleave_def)
qed

text \<open>The cases of \<open>ValuesFromBytes\<close> that work on a copy leave the buffer as it is.\<close>

lemma ValuesFromBytes_buf_unchanged:
  assumes "t \<notin> {TypeUDim, TypeUDim2, TypeColor3, TypeVector2, TypeVector3, TypeRect2D,
      TypeColor3uint8, TypeCFrame}"
  shows "fst (ValuesFromBytes_buf t b) = b"
  using assms by (simp add: ValuesFromBytes_buf_def)


text \<open>
  \<open>ValuesFromBytes\<close> itself does not panic on a \<open>CFrame\<close> or a
  \<open>PhysicalProperties\<close> array, whatever the bytes.
\<close>

lemma is_Panic_map_result [simp]: "is_Panic (map_result f r) = is_Panic r"
  by (cases r) simp_all

lemma physical_properties_values_no_panic:
  "\<not> is_Panic (physical_properties_values b)"
  by (induction b rule: physical_properties_values.induct) simp_all

lemma cframe_matrices_no_panic:
  "\<not> is_Panic (cframe_matrices b i n)"
proof (induction b i n rule: cframe_matrices.induct)
  case (1 b i n)
  then show ?case
    by (subst cframe_matrices.simps) (simp add: Let_def)
qed

lemma set_fields_Vector3:
  "\<exists>v'. set_fields (VVector3 v) i f fields nbytes = Ok (VVector3 v')"
proof (induction fields arbitrary: v f nbytes)
  case Nil
  show ?case by simp
next
  case (Cons field fields)
  obtain x y z where v: "v = ValueVector3 x y z"
    by (cases v)
  let ?fb = "slice field (i * hd nbytes) (i * hd nbytes + hd nbytes)"
  have "(\<exists>v'. fieldSet (VVector3 v) f ?fb = Ok (VVector3 v')) \<or> (\<exists>e. fieldSet (VVector3 v) f ?fb = Err e)"
    by (auto simp: v ValueFloat_FromBytes_def)
  then show ?case
    using Cons.IH by (auto simp: Let_def)
qed

lemma collect_Vector3:
  assumes "\<And>r. r \<in> set rs \<Longrightarrow> \<exists>v. r = Ok (VVector3 v)"
  shows "\<exists>a. collect rs = Ok a \<and> length a = length rs \<and> list_all (\<lambda>v. Type_of v = TypeVector3) a"
  using assms
proof (induction rs)
  case Nil
  show ?case by simp
next
  case (Cons r rs)
  then obtain a where "collect rs = Ok a" "length a = length rs"
    "list_all (\<lambda>v. Type_of v = TypeVector3) a"
    by auto
  moreover obtain v where "r = Ok (VVector3 v)"
    using Cons.prems by auto
  ultimately show ?case by simp
qed

lemma deinterleave_Ok_or_Err:
  "(\<exists>b'. deinterleave b s = Ok b') \<or> (\<exists>e. deinterleave b s = Err e)"
  by (simp add: deinterleave_def interleave_def Let_def)

lemma deinterleave_each_Ok_or_Err:
  "snd (deinterleave_each fields nbytes) = Ok ()
   \<or> (\<exists>e. snd (deinterleave_each fields nbytes) = Err e)"
proof (induction fields arbitrary: nbytes)
  case Nil
  show ?case by simp
next
  case (Cons field fields)
  show ?case
    using deinterleave_Ok_or_Err [of field "int (hd nbytes)"] Cons [of "tl nbytes"]
    by (auto split: prod.splits)
qed

lemma deinterleaveFields_Vector3_result:
  "(\<exists>e. snd (deinterleaveFields TypeVector3 b) = Err e)
   \<or> (\<exists>a. snd (deinterleaveFields TypeVector3 b) = Ok a
        \<and> list_all (\<lambda>v. Type_of v = TypeVector3) a)"
proof (cases "b = [] \<or> length b mod 12 \<noteq> 0")
  case True
  then show ?thesis
    by (auto simp: deinterleaveFields_def newValue_def fieldLen_defs)
next
  case False
  let ?zero = "VVector3 (ValueVector3 0 0 0)"
  let ?n = "length b div 12"
  obtain fields r
    where de: "deinterleave_each (split_fields b ?n [4, 4, 4]) [4, 4, 4] = (fields, r)"
    by (cases "deinterleave_each (split_fields b ?n [4, 4, 4]) [4, 4, 4]")
  have r: "r = Ok () \<or> (\<exists>e. r = Err e)"
    using deinterleave_each_Ok_or_Err [of "split_fields b ?n [4, 4, 4]" "[4, 4, 4]"] de by simp
  let ?rs = "map (\<lambda>i. set_fields ?zero i 0 fields [4, 4, 4]) [0..<?n]"
  have df: "snd (deinterleaveFields TypeVector3 b) = and_then r (\<lambda>_. collect ?rs)"
    using False de by (simp add: deinterleaveFields_def newValue_def fieldLen_defs Let_def)
  have "\<exists>a. collect ?rs = Ok a \<and> length a = length ?rs
      \<and> list_all (\<lambda>v. Type_of v = TypeVector3) a"
    by (rule collect_Vector3) (use set_fields_Vector3 in auto)
  then show ?thesis
    using r unfolding df by auto
qed

lemma set_positions_no_panic:
  "length a = length cfs \<Longrightarrow> list_all (\<lambda>v. Type_of v = TypeVector3) a \<Longrightarrow>
   \<not> is_Panic (set_positions cfs a)"
proof (induction a arbitrary: cfs)
  case Nil
  show ?case by simp
next
  case (Cons v a)
  from Cons.prems(1) obtain cf cfs' where cfs: "cfs = cf # cfs'"
    by (cases cfs) auto
  from Cons.prems(2) obtain p where v: "v = VVector3 p"
    by (cases v) auto
  show ?case
    using Cons unfolding cfs v by simp
qed

lemma ValuesFromBytes_no_panic:
  "\<not> is_Panic (ValuesFromBytes TypeCFrame b)"
  "\<not> is_Panic (ValuesFromBytes TypePhysicalProperties b)"
proof -
  show "\<not> is_Panic (ValuesFromBytes TypePhysicalProperties b)"
    by (simp add: ValuesFromBytes_unfold physical_properties_values_no_panic)
  show "\<not> is_Panic (ValuesFromBytes TypeCFrame b)"
  proof (cases "cframe_matrices b 0 0")
    case (Ok r)
    obtain cfs i where r: "r = (cfs, i)" by (cases r)
    show ?thesis
      using deinterleaveFields_Vector3_result [of "drop i b"] set_positions_no_panic [of _ cfs]
      by (auto simp: ValuesFromBytes_unfold ValuesFromBytes_CFrame_def Ok r
          split: prod.splits result.splits)
  next
    case (Panic p)
    then show ?thesis
      using cframe_matrices_no_panic [of b 0 0] by simp
  qed (simp_all add: ValuesFromBytes_unfold ValuesFromBytes_CFrame_def)
qed


section \<open>The claims\<close>

text \<open>
  Claim C1, as the spec states it: decoding the encoding of an array gives the
  array back.  The array of one \<open>CFrame\<close> with \<open>Special = 2\<close> and a rotation that
  is not zero comes back with a zero rotation: the encoding writes the rotation
  only when \<open>Special\<close> is zero.
\<close>

theorem CFrame_array_is_not_returned:
  "and_then
     (ValuesToBytes TypeCFrame
        [VCFrame (ValueCFrame 2 (Float32x9 0x3F800000 0 0 0 0x3F800000 0 0 0 0x3F800000)
                    (ValueVector3 0 0 0))])
     (ValuesFromBytes TypeCFrame)
   \<noteq> Ok [VCFrame (ValueCFrame 2 (Float32x9 0x3F800000 0 0 0 0x3F800000 0 0 0 0x3F800000)
                    (ValueVector3 0 0 0))]"
  by code_simp

text \<open>
  Claim C1, amended: for every valid type \<open>t\<close> but \<open>Vector2int16\<close> and every array
  \<open>xs\<close> of values of type \<open>t\<close> (a string or a sequence shorter than \<open>2^32\<close>),
  \<open>ValuesToBytes\<close> returns bytes \<open>b\<close> with no error, and no bytes for the empty
  array; and, unless \<open>xs\<close> is empty and \<open>t\<close> is \<open>Int\<close>, \<open>Float\<close>, \<open>BrickColor\<close>,
  \<open>Token\<close>, \<open>SharedString\<close> or \<open>Int64\<close>, \<open>ValuesFromBytes\<close> returns from \<open>b\<close>, with no
  error, the values of \<open>xs\<close>, the rotation of a \<open>CFrame\<close> with \<open>Special \<noteq> 0\<close> and the
  five floats of a \<open>PhysicalProperties\<close> with \<open>CustomPhysics = 0\<close> at zero.  So the
  empty array is encoded as no bytes for every such type, and no bytes are decoded
  as the empty array for every such type but those six.
\<close>

theorem ValuesFromBytes_ValuesToBytes:
  assumes "Valid t" "t \<noteq> TypeVector2int16"
    and "list_all (\<lambda>v. Type_of v = t \<and> length_fits v) xs"
  shows "\<exists>b. ValuesToBytes t xs = Ok b \<and> (xs = [] \<longrightarrow> b = [])
    \<and> (xs \<noteq> [] \<or> \<not> interleaved_scalar t \<longrightarrow> ValuesFromBytes t b = Ok (map normalized xs))"
proof -
  have ty: "list_all (\<lambda>v. Type_of v = t) xs"
    using assms(3) by (simp add: list_all_iff)
  consider (concatenated) "t \<in> {TypeBool, TypeFaces, TypeAxes, TypeVector3int16, TypeDouble,
      TypeNumberRange, TypeRay, TypeString, TypeNumberSequence, TypeColorSequence}"
    | (interleaved) "interleaved_scalar t"
    | (fields) "t \<in> {TypeUDim, TypeUDim2, TypeColor3, TypeVector2, TypeVector3, TypeRect2D,
      TypeColor3uint8}"
    | (special) "t \<in> {TypeCFrame, TypeReference, TypePhysicalProperties}"
    using Valid_cases [OF assms(1)] assms(2) unfolding interleaved_scalar_def by auto
  then show ?thesis
  proof cases
    case concatenated
    then show ?thesis
      using roundtrip_concatenated [OF concatenated assms(3)] by blast
  next
    case interleaved
    then show ?thesis
      using roundtrip_interleaved [OF interleaved ty] by blast
  next
    case fields
    then show ?thesis
      using roundtrip_fields [OF fields ty] by blast
  next
    case special
    then show ?thesis
      using roundtrip_special [OF special ty] by blast
  qed
qed

theorem ValuesFromBytes_ValuesToBytes_witness:
  "Valid TypeCFrame \<and> TypeCFrame \<noteq> TypeVector2int16
   \<and> list_all (\<lambda>v. Type_of v = TypeCFrame \<and> length_fits v)
       [VCFrame (ValueCFrame 2 (Float32x9 0x3F800000 0 0 0 0x3F800000 0 0 0 0x3F800000)
                   (ValueVector3 0x3F800000 0x40000000 0x40400000))]
   \<and> ValuesToBytes TypeCFrame
       [VCFrame (ValueCFrame 2 (Float32x9 0x3F800000 0 0 0 0x3F800000 0 0 0 0x3F800000)
                   (ValueVector3 0x3F800000 0x40000000 0x40400000))]
     = Ok [0x02, 0x7F, 0, 0, 0, 0x80, 0, 0, 0, 0x80, 0x80, 0, 0]
   \<and> ValuesFromBytes TypeCFrame [0x02, 0x7F, 0, 0, 0, 0x80, 0, 0, 0, 0x80, 0x80, 0, 0]
     = Ok [VCFrame (ValueCFrame 2 zero_rotation (ValueVector3 0x3F800000 0x40000000 0x40400000))]"
proof -
  let ?xs = "[VCFrame (ValueCFrame 2 (Float32x9 0x3F800000 0 0 0 0x3F800000 0 0 0 0x3F800000)
                   (ValueVector3 0x3F800000 0x40000000 0x40400000))]"
  have h1: "Valid TypeCFrame" by (simp add: Valid_def)
  have h2: "TypeCFrame \<noteq> TypeVector2int16" by simp
  have h3: "list_all (\<lambda>v. Type_of v = TypeCFrame \<and> length_fits v) ?xs" by simp
  have enc: "ValuesToBytes TypeCFrame ?xs = Ok [0x02, 0x7F, 0, 0, 0, 0x80, 0, 0, 0, 0x80, 0x80, 0, 0]"
    by code_simp
  obtain b where b: "ValuesToBytes TypeCFrame ?xs = Ok b"
    "ValuesFromBytes TypeCFrame b = Ok (map normalized ?xs)"
    using ValuesFromBytes_ValuesToBytes [OF h1 h2 h3] by auto
  have "b = [0x02, 0x7F, 0, 0, 0, 0x80, 0, 0, 0, 0x80, 0x80, 0, 0]"
    using b(1) enc by simp
  then show ?thesis
    using h1 h2 h3 enc b(2) by simp
qed

text \<open>
  Claim C2 (a single value comes back from \<open>FromBytes\<close> of its \<open>Bytes\<close>), at
  \<open>PhysicalProperties\<close>: \<open>Bytes\<close> writes one byte when \<open>CustomPhysics\<close> is zero and
  21 bytes otherwise, and \<open>FromBytes\<close> asks for 21 bytes when the first byte is zero
  and for one byte otherwise.  So it returns an error on the bytes of the value with
  \<open>CustomPhysics = 0\<close>, and on those of the value with \<open>CustomPhysics = 1\<close>, and it
  accepts the bytes of no value, whatever the receiver.
\<close>

theorem PhysicalProperties_FromBytes_rejects_Bytes:
  "FromBytes (VPhysicalProperties z)
     (Bytes (VPhysicalProperties (ValuePhysicalProperties 0 d f e fw ew))) = Err (ErrArrayLength 21)
   \<and> FromBytes (VPhysicalProperties z)
     (Bytes (VPhysicalProperties (ValuePhysicalProperties 1 d f e fw ew))) = Err (ErrArrayLength 1)
   \<and> \<not> is_Ok (FromBytes (VPhysicalProperties z) (Bytes (VPhysicalProperties v)))"
  by (cases z; cases v) (simp add: LittleEndian_PutUint32_def)

text \<open>
  Claim C3 (\<open>ValuesFromBytes\<close> leaves its input buffer unchanged), at a \<open>Vector2\<close>
  array of two values: the call deinterleaves the field slices of \<open>b\<close> in place, and
  the buffer \<open>00 01 02 ... 0F\<close> holds \<open>00 02 04 06 01 03 05 07 08 0A 0C 0E 09 0B 0D 0F\<close>
  when it returns.
\<close>

theorem ValuesFromBytes_Vector2_rewrites_buffer:
  "fst (ValuesFromBytes_buf TypeVector2 [0, 1, 2, 3, 4, 5, 6, 7, 8, 9, 10, 11, 12, 13, 14, 15])
   = [0, 2, 4, 6, 1, 3, 5, 7, 8, 10, 12, 14, 9, 11, 13, 15]"
  by code_simp

text \<open>
  Claim C4 (a decode failure is a returned error, never a panic), at the empty
  buffer: \<open>FromBytes\<close> of a \<open>CFrame\<close> and of a \<open>PhysicalProperties\<close> reads \<open>b[0]\<close>
  first and panics, whatever the receiver.
\<close>

theorem FromBytes_empty_panics:
  "FromBytes (VCFrame cf) [] = Panic IndexOutOfRange
   \<and> FromBytes (VPhysicalProperties pp) [] = Panic IndexOutOfRange"
  by (cases cf; cases pp) simp

text \<open>
  Claim C5 (\<open>deinterleave\<close> undoes \<open>interleave\<close> for every stride that divides the
  length), at the empty buffer with stride 4: \<open>interleave\<close> returns it unchanged, and
  \<open>deinterleave\<close> passes \<open>len(bytes)/size = 0\<close> to \<open>interleave\<close> and returns its
  error.
\<close>

theorem deinterleave_empty_fails:
  "interleave [] 4 = Ok [] \<and> deinterleave [] 4 = Err ErrLengthNotPositive"
  by (simp add: interleave_def deinterleave_def interleave_rect_def)

text \<open>
  Claim C6 (a fixed-size kind fails on a buffer whose length is not a multiple of
  the value size), at \<open>Double\<close> with nine bytes: the loop of \<open>appendByteValues\<close>
  stops at the last whole value, and the call returns the one value that fits, with
  no error.
\<close>

theorem ValuesFromBytes_Double_drops_trailing_byte:
  "ValuesFromBytes TypeDouble [0, 0, 0, 0, 0, 0, 0, 0, 1] = Ok [VDouble 0]"
  by code_simp

text \<open>
  Claim C7, as the spec states it: the array of the references 10, 12, 9 is encoded
  as the 14 bytes \<open>00 00 00 00 00 00 00 00 00 00 00 14 04 05\<close>.  It is not.
\<close>

theorem Reference_blob_is_not_14_bytes:
  "ValuesToBytes TypeReference [VReference 10, VReference 12, VReference 9]
   \<noteq> Ok [0, 0, 0, 0, 0, 0, 0, 0, 0, 0, 0, 0x14, 0x04, 0x05]"
  by code_simp

text \<open>
  Claim C7, amended: the first reference is stored as it is and each later one as
  its difference from the one before (10, 2, -3), zigzag-encoded (20, 4, 5) as four
  big-endian bytes each, \<open>00 00 00 14 00 00 00 04 00 00 00 05\<close>; interleaving with
  stride 4 gives the 12 bytes \<open>00 00 00 00 00 00 00 00 00 14 04 05\<close>, and decoding
  these gives the references 10, 12, 9 back.
\<close>

theorem Reference_example:
  "encodeZigzag32 10 = 20 \<and> encodeZigzag32 (12 - 10) = 4 \<and> encodeZigzag32 (9 - 12) = 5
   \<and> reference_bytes 0 0 [VReference 10, VReference 12, VReference 9]
       = Ok [0, 0, 0, 0x14, 0, 0, 0, 0x04, 0, 0, 0, 0x05]
   \<and> interleave [0, 0, 0, 0x14, 0, 0, 0, 0x04, 0, 0, 0, 0x05] 4
       = Ok [0, 0, 0, 0, 0, 0, 0, 0, 0, 0x14, 0x04, 0x05]
   \<and> ValuesToBytes TypeReference [VReference 10, VReference 12, VReference 9]
       = Ok [0, 0, 0, 0, 0, 0, 0, 0, 0, 0x14, 0x04, 0x05]
   \<and> ValuesFromBytes TypeReference [0, 0, 0, 0, 0, 0, 0, 0, 0, 0x14, 0x04, 0x05]
       = Ok [VReference 10, VReference 12, VReference 9]"
  by code_simp

text \<open>
  Claim C8: a single \<open>CFrame\<close> with \<open>Special = 2\<close> and position (1.0, 2.0, 3.0),
  whatever its rotation, is encoded as 13 bytes, the matrix byte \<open>02\<close> and the 12
  bytes of the interleaved \<open>Vector3\<close> array of its position.  On these bytes the
  matrix loop reads one matrix and stops at position 1, where the bytes that
  remain are \<open>12\<close> times the number of matrices, and the decoded array is
  the one \<open>CFrame\<close> with \<open>Special = 2\<close>, a zero rotation and the position.
  The floats 1.0, 2.0 and 3.0 are the bit patterns \<open>3F800000\<close>, \<open>40000000\<close> and
  \<open>40400000\<close>.
\<close>

theorem CFrame_example:
  "ValuesToBytes TypeCFrame
       [VCFrame (ValueCFrame 2 rotation (ValueVector3 0x3F800000 0x40000000 0x40400000))]
     = Ok ([0x02] @ [0x7F, 0, 0, 0, 0x80, 0, 0, 0, 0x80, 0x80, 0, 0])
   \<and> length ([0x02] @ [0x7F, 0, 0, 0, 0x80, 0, 0, 0, 0x80, 0x80, 0, 0 :: byte]) = 13
   \<and> ValuesToBytes TypeVector3 [VVector3 (ValueVector3 0x3F800000 0x40000000 0x40400000)]
     = Ok [0x7F, 0, 0, 0, 0x80, 0, 0, 0, 0x80, 0x80, 0, 0]
   \<and> cframe_matrices [0x02, 0x7F, 0, 0, 0, 0x80, 0, 0, 0, 0x80, 0x80, 0, 0] 0 0
     = Ok ([ValueCFrame 2 zero_rotation (ValueVector3 0 0 0)], 1)
   \<and> length (drop 1 [0x02, 0x7F, 0, 0, 0, 0x80, 0, 0, 0, 0x80, 0x80, 0, 0 :: byte])
     = length [ValueCFrame 2 zero_rotation (ValueVector3 0 0 0)] * 12
   \<and> ValuesFromBytes TypeCFrame [0x02, 0x7F, 0, 0, 0, 0x80, 0, 0, 0, 0x80, 0x80, 0, 0]
     = Ok [VCFrame (ValueCFrame 2 zero_rotation (ValueVector3 0x3F800000 0x40000000 0x40400000))]"
  by code_simp

text \<open>
  Claim C9: decoding an encoded float gives the float back, bit for bit, for every
  32-bit pattern: the patterns that are not NaN, both zeros among them, and the NaN
  patterns too.  The encoding is the rotation of the bits by one place to the left,
  and it keeps the number of set bits.
\<close>

theorem RobloxFloat_roundtrip_rotation:
  "decodeRobloxFloat (encodeRobloxFloat x) = x
   \<and> encodeRobloxFloat x = word_rotl 1 x
   \<and> popcount (encodeRobloxFloat x) = popcount x"
  using decodeRobloxFloat_encodeRobloxFloat [of x] encodeRobloxFloat_rotl [of x]
    popcount_encodeRobloxFloat [of x]
  by blast

text \<open>
  Claim C10: on a buffer of \<open>stride * stride\<close> bytes the in-place branch of
  \<open>interleave\<close> (the one it takes, \<open>rows == cols\<close>) and the scratch-buffer branch
  give the same bytes, and the byte at \<open>c * rows + r\<close> of the output is the byte at
  \<open>r * cols + c\<close> of the input.
\<close>

theorem interleave_branches_agree:
  assumes "length buf = stride * stride"
  shows "interleave_square buf stride stride = interleave_rect buf stride stride
    \<and> length (interleave_square buf stride stride) = length buf
    \<and> (\<forall>r c. r < stride \<and> c < stride \<longrightarrow>
          interleave_square buf stride stride ! (c * stride + r) = buf ! (r * stride + c))
    \<and> (0 < stride \<longrightarrow> interleave buf (int stride) = Ok (interleave_square buf stride stride))"
proof -
  have sq: "interleave_square buf stride stride = transposed stride stride buf"
    using assms by (rule interleave_square_eq)
  have re: "interleave_rect buf stride stride = transposed stride stride buf"
    using assms by (rule interleave_rect_eq)
  have idx: "transposed stride stride buf ! (c * stride + r) = buf ! (r * stride + c)"
    if "r < stride" "c < stride" for r c
  proof -
    have "c * stride + r < stride * stride"
      by (rule cell_index_less [OF that(2) that(1)])
    then show ?thesis
      using that by (simp add: transposed_def)
  qed
  have il: "interleave buf (int stride) = Ok (transposed stride stride buf)" if "0 < stride"
    using that assms by (rule interleave_eq_transposed)
  show ?thesis
    using assms idx il by (simp add: sq re length_transposed)
qed

theorem interleave_branches_agree_witness:
  "length [1, 2, 3, 4, 5, 6, 7, 8, 9 :: byte] = 3 * 3
   \<and> interleave_square [1, 2, 3, 4, 5, 6, 7, 8, 9] 3 3 = [1, 4, 7, 2, 5, 8, 3, 6, 9]
   \<and> interleave_rect [1, 2, 3, 4, 5, 6, 7, 8, 9] 3 3 = [1, 4, 7, 2, 5, 8, 3, 6, 9]
   \<and> interleave [1, 2, 3, 4, 5, 6, 7, 8, 9] 3 = Ok [1, 4, 7, 2, 5, 8, 3, 6, 9]"
proof -
  have h: "length [1, 2, 3, 4, 5, 6, 7, 8, 9 :: byte] = 3 * 3" by simp
  have sq: "interleave_square [1, 2, 3, 4, 5, 6, 7, 8, 9] 3 3 = [1, 4, 7, 2, 5, 8, 3, 6, 9]"
    by code_simp
  show ?thesis
    using h sq interleave_branches_agree [OF h] by simp
qed


end
